theory Spec2Isabelle
  imports Main "HOL-Library.Word" "HOL-Library.Signed_Division" "HOL-Library.Monad_Syntax"
begin

unbundle bit_operations_syntax

section \<open>Machine types of cacheSim.cpp\<close>

text \<open>
  The simulator is built for an LP64 target: \<open>unsigned long\<close> has 64 bits, \<open>unsigned int\<close>
  and \<open>int\<close> have 32. Unsigned arithmetic wraps around. An \<open>int\<close> is a 32-bit word
  read in two's complement by \<open>sint\<close>; converting it to \<open>unsigned int\<close> keeps its bits.
\<close>

type_synonym ulong = "64 word"
type_synonym uint = "32 word"
type_synonym cint = "32 word"

section \<open>class CacheLine\<close>

text \<open>
  A line stores a tag and its LRU counter. Isabelle reserves names that end in an
  underscore, so a member \<open>x_\<close> of a class is the field \<open>cl_x\<close> (CacheLine), \<open>cs_x\<close>
  (CacheSet), \<open>mr_x\<close> (MemRef) or \<open>ct_x\<close> (CacheTable) of the record that models the
  class. The member \<open>valid_\<close> of a line is never written and never read, so the record
  leaves it out.
\<close>

record CacheLine =
  cl_tag :: ulong
  cl_LRUFlag :: ulong

definition set_LRU :: "CacheLine \<Rightarrow> CacheLine" where
  "set_LRU l = l\<lparr>cl_LRUFlag := 0\<rparr>"

definition setTag :: "ulong \<Rightarrow> CacheLine \<Rightarrow> CacheLine" where
  "setTag tag l = l\<lparr>cl_tag := tag\<rparr>"

definition increment_LRU :: "CacheLine \<Rightarrow> CacheLine" where
  "increment_LRU l = l\<lparr>cl_LRUFlag := cl_LRUFlag l + 1\<rparr>"

section \<open>class CacheSet\<close>

text \<open>
  \<open>setSize_\<close> and \<open>index_\<close> are \<open>unsigned int\<close>; \<open>cacheLine_\<close> is the vector of lines in
  iteration order. The member \<open>indexSize_\<close> of the set is never used.
\<close>

record CacheSet =
  cs_setSize :: uint
  cs_index :: uint
  cs_cacheLine :: "CacheLine list"

text \<open>
  \<open>add_new_cache_line\<close>: the constructor \<open>CacheLine(tag)\<close> stores the tag, \<open>set_LRU\<close>
  assigns 0 to the counter, and the line is pushed at the end of the vector.
\<close>

definition add_new_cache_line :: "CacheSet \<Rightarrow> ulong \<Rightarrow> CacheSet" where
  "add_new_cache_line s tag =
     s\<lparr>cs_cacheLine := cs_cacheLine s @ [set_LRU \<lparr>cl_tag = tag, cl_LRUFlag = 0\<rparr>]\<rparr>"

text \<open>\<open>update_LRUs\<close>: one \<open>increment_LRU\<close> on every line of the set.\<close>

definition update_LRUs :: "CacheSet \<Rightarrow> CacheSet" where
  "update_LRUs s = s\<lparr>cs_cacheLine := map increment_LRU (cs_cacheLine s)\<rparr>"

text \<open>
  The loop of \<open>check_cache_lines\<close> walks the vector from \<open>begin()\<close> and stops at the first
  line whose tag equals the one looked for; \<open>check_loop\<close> returns the position of that
  line, \<open>None\<close> when the loop runs to \<open>end()\<close>.
\<close>

fun check_loop :: "ulong \<Rightarrow> CacheLine list \<Rightarrow> nat option" where
  "check_loop tag [] = None"
| "check_loop tag (l # ls) =
     (if tag = cl_tag l then Some 0 else map_option Suc (check_loop tag ls))"

text \<open>
  On a match the whole set is aged by \<open>update_LRUs\<close>, then the counter of the matching
  line is set to 0 and the result is \<open>true\<close>. Without a match nothing is written.
\<close>

definition check_cache_lines :: "CacheSet \<Rightarrow> ulong \<Rightarrow> bool \<times> CacheSet" where
  "check_cache_lines s tag =
     (case check_loop tag (cs_cacheLine s) of
        None \<Rightarrow> (False, s)
      | Some it \<Rightarrow>
          (let s1 = update_LRUs s
           in (True, s1\<lparr>cs_cacheLine := (cs_cacheLine s1)[it := set_LRU (cs_cacheLine s1 ! it)]\<rparr>)))"

text \<open>
  \<open>find_LRU\<close>: \<open>currentLRU\<close> starts at \<open>begin()\<close> and moves to \<open>it\<close> only when the counter
  at \<open>it\<close> is strictly greater. Iterators are positions in the vector; on an empty vector
  the result is \<open>begin() = end()\<close>, position 0.
\<close>

definition find_LRU :: "CacheSet \<Rightarrow> nat" where
  "find_LRU s =
     fold (\<lambda>it currentLRU.
             if cl_LRUFlag (cs_cacheLine s ! currentLRU) < cl_LRUFlag (cs_cacheLine s ! it)
             then it else currentLRU)
          [0..<length (cs_cacheLine s)] 0"

text \<open>
  \<open>update_cache_lines\<close>: \<open>cacheLine_.size() < setSize_\<close> compares unsigned values. With
  room left the tag is appended; otherwise the line found by \<open>find_LRU\<close> is overwritten
  after the set has been aged. Writing through \<open>end()\<close> of an empty vector (a set whose
  \<open>setSize_\<close> is 0) is undefined behaviour: the model returns \<open>None\<close> there.
\<close>

definition update_cache_lines :: "CacheSet \<Rightarrow> ulong \<Rightarrow> CacheSet option" where
  "update_cache_lines s tag =
     (if length (cs_cacheLine s) < unat (cs_setSize s) then Some (add_new_cache_line s tag)
      else
        (let lineToReplace = find_LRU s;
             s1 = update_LRUs s
         in if lineToReplace < length (cs_cacheLine s1)
            then Some (s1\<lparr>cs_cacheLine :=
                   (cs_cacheLine s1)[lineToReplace :=
                      set_LRU (setTag tag (cs_cacheLine s1 ! lineToReplace))]\<rparr>)
            else None))"

section \<open>class MemRef\<close>

datatype ReadOrWrite = ERROR | READ | WRITE

text \<open>
  One memory reference of the trace. \<open>newTag_\<close> is never assigned (the call of
  \<open>setNewTag\<close> is commented out) and is left out.
\<close>

record MemRef =
  mr_rW :: ReadOrWrite
  mr_refNum :: cint
  mr_size :: cint
  mr_hM :: bool
  mr_address :: ulong
  mr_tag :: ulong
  mr_index :: ulong
  mr_offset :: ulong

text \<open>
  The constructor assigns \<open>refNum_\<close>, \<open>rW_\<close>, \<open>size_\<close> and \<open>address_\<close> only. The
  members it leaves unset are \<open>False\<close> and 0 here; \<open>read_mem_trace\<close> assigns each of them
  (\<open>calculate_tag\<close>, \<open>calculate_index\<close>, \<open>calculate_offset\<close>, \<open>setHM\<close>) before it is read.
\<close>

definition MemRef_init :: "cint \<Rightarrow> ReadOrWrite \<Rightarrow> cint \<Rightarrow> ulong \<Rightarrow> MemRef" where
  "MemRef_init refNum rW size' address =
     \<lparr>mr_rW = rW, mr_refNum = refNum, mr_size = size', mr_hM = False,
      mr_address = address, mr_tag = 0, mr_index = 0, mr_offset = 0\<rparr>"

definition setHM :: "bool \<Rightarrow> MemRef \<Rightarrow> MemRef" where
  "setHM hM m = m\<lparr>mr_hM := hM\<rparr>"

text \<open>
  \<open>getIndex\<close> returns \<open>int\<close>: the 64-bit \<open>index_\<close> is cut to its low 32 bits.
\<close>

definition getIndex :: "MemRef \<Rightarrow> cint" where
  "getIndex m = ucast (mr_index m)"

text \<open>
  The three decomposition functions take \<open>unsigned long\<close> parameters. A right shift of
  a 64-bit value by 64 or more is undefined behaviour: \<open>None\<close>.
\<close>

definition calculate_tag :: "MemRef \<Rightarrow> ulong \<Rightarrow> ulong \<Rightarrow> MemRef option" where
  "calculate_tag m indexSize offsetSize =
     (if unat (indexSize + offsetSize) < 64
      then Some (m\<lparr>mr_tag := drop_bit (unat (indexSize + offsetSize)) (mr_address m)\<rparr>)
      else None)"

definition calculate_index :: "MemRef \<Rightarrow> ulong \<Rightarrow> ulong \<Rightarrow> MemRef option" where
  "calculate_index m indexMask offsetSize =
     (if unat offsetSize < 64
      then Some (m\<lparr>mr_index := drop_bit (unat offsetSize) (mr_address m AND indexMask)\<rparr>)
      else None)"

definition calculate_offset :: "MemRef \<Rightarrow> ulong \<Rightarrow> MemRef" where
  "calculate_offset m offsetMask = m\<lparr>mr_offset := mr_address m AND offsetMask\<rparr>"

section \<open>Arithmetic of the geometry\<close>

text \<open>
  \<open>int_div\<close> is the division of two \<open>int\<close>s: it truncates towards zero (\<open>sdiv\<close>); a zero
  divisor and the quotient \<open>INT_MIN / -1\<close> are undefined behaviour.
\<close>

definition int_div :: "cint \<Rightarrow> cint \<Rightarrow> cint option" where
  "int_div a b =
     (if b = 0 \<or> (sint a = - (2 ^ 31) \<and> sint b = - 1) then None
      else Some (word_of_int (sint a sdiv sint b)))"

text \<open>
  \<open>log2_int n\<close> is the value of \<open>log2(n)\<close> after its conversion to \<open>int\<close>, for an \<open>int\<close>
  \<open>n > 0\<close>: the conversion truncates, the logarithm of a power of two is exact, and below
  \<open>2^31\<close> the logarithm of any other number is further from the next integer than a
  double can round. For \<open>n \<le> 0\<close> the logarithm is minus infinity or not a number, whose
  conversion to \<open>int\<close> is undefined behaviour; the callers return \<open>None\<close> there.
\<close>

fun log2_int :: "nat \<Rightarrow> nat" where
  "log2_int n = (if n < 2 then 0 else Suc (log2_int (n div 2)))"

declare log2_int.simps [simp del]

text \<open>
  The masks are computed in double precision. \<open>round_double n\<close> is the integer \<open>n\<close>
  rounded to the nearest double (53 significant bits, ties to even): integers below
  \<open>2^53\<close> in magnitude are exact. \<open>ulong_of_double\<close> converts an integer-valued double to
  \<open>unsigned long\<close>, which is undefined behaviour outside the range of the type.
\<close>

definition round_double :: "int \<Rightarrow> int" where
  "round_double n =
     (if \<bar>n\<bar> < 2 ^ 53 then n
      else
        (let sh = log2_int (nat \<bar>n\<bar>) - 52;
             q = \<bar>n\<bar> div 2 ^ sh;
             r = \<bar>n\<bar> mod 2 ^ sh;
             h = 2 ^ (sh - 1);
             q' = (if h < r \<or> (r = h \<and> odd q) then q + 1 else q)
         in sgn n * (q' * 2 ^ sh)))"

definition ulong_of_double :: "int \<Rightarrow> ulong option" where
  "ulong_of_double d = (if 0 \<le> d \<and> d < 2 ^ 64 then Some (word_of_int d) else None)"

section \<open>class CacheTable\<close>

text \<open>
  The table owns the sets, the processed references, the configuration, the derived
  geometry and the counters. \<open>setSize_\<close> of the table is the field \<open>ct_setSize\<close>.
  \<open>tagSize_\<close>, \<open>tagMask_\<close>, \<open>hitRate\<close> and \<open>missRate\<close> are written by
  \<open>calculate_tag_size\<close>, \<open>calculate_tag_mask\<close> and \<open>print_summary\<close> and read by nothing
  in the simulation; they and these functions are left out.
\<close>

record CacheTable =
  ct_cacheSet :: "CacheSet list"
  ct_memRef :: "MemRef list"
  ct_totalCacheSize :: cint
  ct_lineSize :: cint
  ct_setSize :: cint
  ct_numberOfSets :: cint
  ct_indexSize :: cint
  ct_offsetSize :: cint
  ct_totalHits :: cint
  ct_totalMiss :: cint
  ct_totalAccess :: cint
  ct_offsetMask :: ulong
  ct_indexMask :: ulong

text \<open>
  The constructor \<open>CacheTable()\<close> assigns nothing: the two vectors start empty and the
  integer members hold whatever the storage held. \<open>CacheTable_zero\<close> is the object on
  zero-filled storage; theorems about every run quantify over the table instead.
\<close>

definition CacheTable_zero :: CacheTable where
  "CacheTable_zero =
     \<lparr>ct_cacheSet = [], ct_memRef = [], ct_totalCacheSize = 0, ct_lineSize = 0,
      ct_setSize = 0, ct_numberOfSets = 0, ct_indexSize = 0, ct_offsetSize = 0,
      ct_totalHits = 0, ct_totalMiss = 0, ct_totalAccess = 0,
      ct_offsetMask = 0, ct_indexMask = 0\<rparr>"

text \<open>
  \<open>read_cache_config\<close> stores the three numbers of the configuration file, in the order
  set size, line size, total size; reading the file itself is outside the model.
\<close>

definition read_cache_config :: "CacheTable \<Rightarrow> cint \<Rightarrow> cint \<Rightarrow> cint \<Rightarrow> CacheTable" where
  "read_cache_config t setSize lineSize totalCacheSize =
     t\<lparr>ct_setSize := setSize, ct_lineSize := lineSize, ct_totalCacheSize := totalCacheSize\<rparr>"

text \<open>
  \<open>calculate_number_of_sets\<close>: when one of the two sizes is 0 the function returns
  without assigning \<open>numberOfSets_\<close>.
\<close>

definition calculate_number_of_sets :: "CacheTable \<Rightarrow> CacheTable option" where
  "calculate_number_of_sets t =
     (if ct_lineSize t \<noteq> 0 \<and> ct_setSize t \<noteq> 0
      then do {
        q \<leftarrow> int_div (ct_totalCacheSize t) (ct_lineSize t);
        n \<leftarrow> int_div q (ct_setSize t);
        Some (t\<lparr>ct_numberOfSets := n\<rparr>)
      }
      else Some t)"

definition calculate_index_size :: "CacheTable \<Rightarrow> CacheTable option" where
  "calculate_index_size t =
     (if 0 < sint (ct_numberOfSets t)
      then Some (t\<lparr>ct_indexSize := word_of_nat (log2_int (nat (sint (ct_numberOfSets t))))\<rparr>)
      else None)"

definition calculate_offset_size :: "CacheTable \<Rightarrow> CacheTable option" where
  "calculate_offset_size t =
     (if 0 < sint (ct_lineSize t)
      then Some (t\<lparr>ct_offsetSize := word_of_nat (log2_int (nat (sint (ct_lineSize t))))\<rparr>)
      else None)"

text \<open>
  \<open>calculate_offset_mask\<close>: \<open>pow(2, offsetSize_) - 1\<close> in double precision, converted to
  \<open>unsigned long\<close>. With a negative exponent down to -53 the double lies strictly
  between -1 and 0 and converts to 0; below that it rounds to -1, out of range.
\<close>

definition calculate_offset_mask :: "CacheTable \<Rightarrow> CacheTable option" where
  "calculate_offset_mask t =
     (let k = sint (ct_offsetSize t)
      in if 0 \<le> k
         then do {
           m \<leftarrow> ulong_of_double (round_double (2 ^ nat k - 1));
           Some (t\<lparr>ct_offsetMask := m\<rparr>)
         }
         else if - 53 \<le> k then Some (t\<lparr>ct_offsetMask := 0\<rparr>)
         else None)"

text \<open>
  \<open>calculate_index_mask\<close>: \<open>(pow(2, indexSize_ + offsetSize_) - 1) - offsetMask_\<close>. The sum
  of the two \<open>int\<close>s must not overflow; \<open>offsetMask_\<close> is converted to double; both
  subtractions round. A negative result is out of range of \<open>unsigned long\<close> once it
  reaches -1, which with a negative exponent leaves only the case of a zero mask.
\<close>

definition calculate_index_mask :: "CacheTable \<Rightarrow> CacheTable option" where
  "calculate_index_mask t =
     (let k = sint (ct_indexSize t) + sint (ct_offsetSize t)
      in if k < - (2 ^ 31) \<or> 2 ^ 31 \<le> k then None
         else if 0 \<le> k
         then do {
           m \<leftarrow> ulong_of_double
                  (round_double (round_double (2 ^ nat k - 1)
                                 - round_double (uint (ct_offsetMask t))));
           Some (t\<lparr>ct_indexMask := m\<rparr>)
         }
         else if - 53 \<le> k \<and> ct_offsetMask t = 0 then Some (t\<lparr>ct_indexMask := 0\<rparr>)
         else None)"

text \<open>
  \<open>create_cache_sets\<close> pushes \<open>numberOfSets_\<close> sets (none for a count below 1). The
  constructor \<open>CacheSet(int setSize)\<close> converts the size to \<open>unsigned int\<close> and leaves
  \<open>index_\<close> unset: it is 0 here until \<open>set_index_for_cache_sets\<close>, which \<open>main\<close> calls
  next, assigns it.
\<close>

definition CacheSet_init :: "cint \<Rightarrow> CacheSet" where
  "CacheSet_init setSize = \<lparr>cs_setSize = setSize, cs_index = 0, cs_cacheLine = []\<rparr>"

definition create_cache_sets :: "CacheTable \<Rightarrow> cint \<Rightarrow> CacheTable" where
  "create_cache_sets t numberOfSets =
     t\<lparr>ct_cacheSet := ct_cacheSet t
          @ replicate (nat (sint numberOfSets)) (CacheSet_init (ct_setSize t))\<rparr>"

text \<open>
  \<open>set_index_for_cache_sets\<close> numbers the sets with the \<open>int\<close> counter \<open>indexSetter\<close>,
  incremented after each use; incrementing \<open>INT_MAX\<close> is undefined behaviour.
\<close>

fun set_index_loop :: "cint \<Rightarrow> CacheSet list \<Rightarrow> CacheSet list option" where
  "set_index_loop indexSetter [] = Some []"
| "set_index_loop indexSetter (s # ss) =
     (if sint indexSetter = 2 ^ 31 - 1 then None
      else map_option (\<lambda>ss'. s\<lparr>cs_index := indexSetter\<rparr> # ss')
             (set_index_loop (indexSetter + 1) ss))"

definition set_index_for_cache_sets :: "CacheTable \<Rightarrow> CacheTable option" where
  "set_index_for_cache_sets t =
     map_option (\<lambda>ss. t\<lparr>ct_cacheSet := ss\<rparr>) (set_index_loop 0 (ct_cacheSet t))"

text \<open>
  \<open>determine_hit_or_miss\<close>: the loop looks for the first set whose index equals the
  \<open>unsigned long\<close> argument. There a hit ends the function with \<open>true\<close>; a miss calls
  \<open>update_cache_lines\<close> and leaves the loop. When the loop ends without a match the
  function falls through to the same two last statements, \<open>totalMiss++; return false\<close>.
  The counters are \<open>int\<close>s; an increment of \<open>INT_MAX\<close>, undefined in C++, wraps here as it
  does on the two's complement targets.
\<close>

fun determine_loop :: "ulong \<Rightarrow> ulong \<Rightarrow> CacheSet list \<Rightarrow> (bool \<times> CacheSet list) option" where
  "determine_loop index tag [] = Some (False, [])"
| "determine_loop index tag (s # ss) =
     (if index = ucast (cs_index s)
      then (case check_cache_lines s tag of
              (True, s') \<Rightarrow> Some (True, s' # ss)
            | (False, s') \<Rightarrow> map_option (\<lambda>s''. (False, s'' # ss)) (update_cache_lines s' tag))
      else map_option (\<lambda>(hm, ss'). (hm, s # ss')) (determine_loop index tag ss))"

definition determine_hit_or_miss ::
  "CacheTable \<Rightarrow> ulong \<Rightarrow> ulong \<Rightarrow> (bool \<times> CacheTable) option" where
  "determine_hit_or_miss t index tag =
     (case determine_loop index tag (ct_cacheSet t) of
        None \<Rightarrow> None
      | Some (True, ss) \<Rightarrow> Some (True, t\<lparr>ct_cacheSet := ss, ct_totalHits := ct_totalHits t + 1\<rparr>)
      | Some (False, ss) \<Rightarrow> Some (False, t\<lparr>ct_cacheSet := ss, ct_totalMiss := ct_totalMiss t + 1\<rparr>))"

text \<open>
  \<open>read_mem_trace\<close>: the parser delivers, line by line, the access type, the size and
  the address; the model takes them as a list. \<open>read_mem_trace_body\<close> is one iteration
  of the loop and \<open>read_mem_trace_loop\<close> the loop, with the local counter \<open>refNum\<close>
  (an \<open>int\<close>, wrapping like the other counters). For each reference the body builds the
  \<open>MemRef\<close>, decomposes the address (the \<open>int\<close> sizes are passed as \<open>unsigned long\<close>, which
  extends their sign), asks \<open>determine_hit_or_miss\<close> with the \<open>int\<close> that \<open>getIndex\<close>
  returns, stores the reference and increments \<open>refNum\<close> and \<open>totalAccess\<close>. The \<open>int\<close>
  that the function itself returns is not modelled: \<open>main\<close> ignores it, and the source
  states it only for a file that cannot be opened, before the loop.
\<close>

definition read_mem_trace_body ::
  "CacheTable \<Rightarrow> cint \<Rightarrow> ReadOrWrite \<times> cint \<times> ulong \<Rightarrow> CacheTable option" where
  "read_mem_trace_body t refNum ref =
     (case ref of (rW, size', address) \<Rightarrow>
        do {
          m1 \<leftarrow> calculate_tag (MemRef_init refNum rW size' address)
                  (scast (ct_indexSize t)) (scast (ct_offsetSize t));
          m2 \<leftarrow> calculate_index m1 (ct_indexMask t) (scast (ct_offsetSize t));
          let m3 = calculate_offset m2 (ct_offsetMask t);
          (hM, t1) \<leftarrow> determine_hit_or_miss t (scast (getIndex m3)) (mr_tag m3);
          Some (t1\<lparr>ct_memRef := ct_memRef t1 @ [setHM hM m3],
                   ct_totalAccess := ct_totalAccess t1 + 1\<rparr>)
        })"

fun read_mem_trace_loop ::
  "CacheTable \<Rightarrow> cint \<Rightarrow> (ReadOrWrite \<times> cint \<times> ulong) list \<Rightarrow> CacheTable option" where
  "read_mem_trace_loop t refNum [] = Some t"
| "read_mem_trace_loop t refNum (ref # rest) =
     do {
       t2 \<leftarrow> read_mem_trace_body t refNum ref;
       read_mem_trace_loop t2 (refNum + 1) rest
     }"

definition read_mem_trace ::
  "CacheTable \<Rightarrow> (ReadOrWrite \<times> cint \<times> ulong) list \<Rightarrow> CacheTable option" where
  "read_mem_trace t trace = read_mem_trace_loop t 0 trace"

text \<open>
  The configuration part of \<open>main\<close>, in the order of its calls, from the configuration
  values to the table on which \<open>read_mem_trace\<close> runs.
\<close>

definition configure :: "CacheTable \<Rightarrow> cint \<Rightarrow> cint \<Rightarrow> cint \<Rightarrow> CacheTable option" where
  "configure t setSize lineSize totalCacheSize =
     do {
       t1 \<leftarrow> calculate_number_of_sets (read_cache_config t setSize lineSize totalCacheSize);
       t2 \<leftarrow> set_index_for_cache_sets (create_cache_sets t1 (ct_numberOfSets t1));
       t3 \<leftarrow> calculate_index_size t2;
       t4 \<leftarrow> calculate_offset_size t3;
       t5 \<leftarrow> calculate_offset_mask t4;
       calculate_index_mask t5
     }"

text \<open>
  A sequence of cache accesses, each one call of \<open>determine_hit_or_miss\<close> with an index
  and a tag, as the loop of \<open>read_mem_trace\<close> issues them; the outcomes are collected
  in order.
\<close>

fun accesses :: "CacheTable \<Rightarrow> (ulong \<times> ulong) list \<Rightarrow> (bool list \<times> CacheTable) option" where
  "accesses t [] = Some ([], t)"
| "accesses t ((index, tag) # rest) =
     do {
       (hM, t1) \<leftarrow> determine_hit_or_miss t index tag;
       (hMs, t2) \<leftarrow> accesses t1 rest;
       Some (hM # hMs, t2)
     }"

section \<open>Notions used to state the properties\<close>

text \<open>
  \<open>lookup_set index ss\<close> is the position of the set that \<open>determine_hit_or_miss\<close> selects
  for \<open>index\<close>: the first set whose \<open>index_\<close>, widened to \<open>unsigned long\<close>, equals it.
\<close>

fun lookup_set :: "ulong \<Rightarrow> CacheSet list \<Rightarrow> nat option" where
  "lookup_set index [] = None"
| "lookup_set index (s # ss) =
     (if index = ucast (cs_index s) then Some 0 else map_option Suc (lookup_set index ss))"

text \<open>The two structural conditions on a set: its bound and the uniqueness of its tags.\<close>

definition set_inv :: "CacheSet \<Rightarrow> bool" where
  "set_inv s \<longleftrightarrow> length (cs_cacheLine s) \<le> unat (cs_setSize s)
                 \<and> distinct (map cl_tag (cs_cacheLine s))"

text \<open>
  \<open>can_insert\<close> excludes the one state in which \<open>update_cache_lines\<close> is undefined, an
  empty set of size 0.
\<close>

definition can_insert :: "CacheSet \<Rightarrow> bool" where
  "can_insert s \<longleftrightarrow> cs_cacheLine s \<noteq> [] \<or> cs_setSize s \<noteq> 0"

text \<open>
  \<open>access_set\<close> names the body of the branch that \<open>determine_hit_or_miss\<close> runs on the
  selected set: \<open>check_cache_lines\<close>, and \<open>update_cache_lines\<close> after a miss.
\<close>

definition access_set :: "CacheSet \<Rightarrow> ulong \<Rightarrow> (bool \<times> CacheSet) option" where
  "access_set s tag =
     (case check_cache_lines s tag of
        (True, s') \<Rightarrow> Some (True, s')
      | (False, s') \<Rightarrow> map_option (Pair False) (update_cache_lines s' tag))"

text \<open>
  \<open>trace_ready\<close> collects what \<open>read_mem_trace\<close> needs to be defined at every step: both
  shifts of the decomposition are by fewer than 64 bits, and no set is an empty set of
  size 0.
\<close>

definition trace_ready :: "CacheTable \<Rightarrow> bool" where
  "trace_ready t \<longleftrightarrow>
     unat (scast (ct_indexSize t) + scast (ct_offsetSize t) :: ulong) < 64
     \<and> unat (scast (ct_offsetSize t) :: ulong) < 64
     \<and> (\<forall>s \<in> set (ct_cacheSet t). can_insert s)"

text \<open>
  A concrete cache for the examples: the table that \<open>configure\<close> builds from set size 2,
  line size 16 and total size 64 (two sets), and the same table after the four accesses
  with tags 10, 11, 10, 12 to set 1.
\<close>

definition example_table :: CacheTable where
  "example_table =
     \<lparr>ct_cacheSet = [\<lparr>cs_setSize = 2, cs_index = 0, cs_cacheLine = []\<rparr>,
                     \<lparr>cs_setSize = 2, cs_index = 1, cs_cacheLine = []\<rparr>],
      ct_memRef = [], ct_totalCacheSize = 64, ct_lineSize = 16,
      ct_setSize = 2, ct_numberOfSets = 2, ct_indexSize = 1, ct_offsetSize = 4,
      ct_totalHits = 0, ct_totalMiss = 0, ct_totalAccess = 0,
      ct_offsetMask = 15, ct_indexMask = 16\<rparr>"

definition example_table_used :: CacheTable where
  "example_table_used =
     example_table
       \<lparr>ct_cacheSet := [\<lparr>cs_setSize = 2, cs_index = 0, cs_cacheLine = []\<rparr>,
                        \<lparr>cs_setSize = 2, cs_index = 1,
                         cs_cacheLine = [\<lparr>cl_tag = 10, cl_LRUFlag = 1\<rparr>,
                                         \<lparr>cl_tag = 12, cl_LRUFlag = 0\<rparr>]\<rparr>],
        ct_totalHits := 1, ct_totalMiss := 3\<rparr>"

text \<open>
  A trace of three references for the example table, and the table after the run: the
  addresses 0x00 and 0x04 fall into set 0 with tag 0, the address 0x10 into set 1.
\<close>

definition example_trace :: "(ReadOrWrite \<times> cint \<times> ulong) list" where
  "example_trace = [(READ, 4, 0x00), (READ, 4, 0x10), (WRITE, 4, 0x04)]"

definition example_table_traced :: CacheTable where
  "example_table_traced =
     example_table
       \<lparr>ct_cacheSet := [\<lparr>cs_setSize = 2, cs_index = 0,
                          cs_cacheLine = [\<lparr>cl_tag = 0, cl_LRUFlag = 0\<rparr>]\<rparr>,
                        \<lparr>cs_setSize = 2, cs_index = 1,
                          cs_cacheLine = [\<lparr>cl_tag = 0, cl_LRUFlag = 0\<rparr>]\<rparr>],
        ct_memRef :=
          [\<lparr>mr_rW = READ, mr_refNum = 0, mr_size = 4, mr_hM = False,
            mr_address = 0x00, mr_tag = 0, mr_index = 0, mr_offset = 0\<rparr>,
           \<lparr>mr_rW = READ, mr_refNum = 1, mr_size = 4, mr_hM = False,
            mr_address = 0x10, mr_tag = 0, mr_index = 1, mr_offset = 0\<rparr>,
           \<lparr>mr_rW = WRITE, mr_refNum = 2, mr_size = 4, mr_hM = True,
            mr_address = 0x04, mr_tag = 0, mr_index = 0, mr_offset = 4\<rparr>],
        ct_totalHits := 1, ct_totalMiss := 2, ct_totalAccess := 3\<rparr>"

text \<open>
  The table that \<open>configure\<close> builds from set size 3, line size 8 and total size 100:
  \<open>(100 / 8) / 3 = 12 / 3 = 4\<close> sets.
\<close>

definition table_100_8_3 :: CacheTable where
  "table_100_8_3 =
     \<lparr>ct_cacheSet = [\<lparr>cs_setSize = 3, cs_index = 0, cs_cacheLine = []\<rparr>,
                     \<lparr>cs_setSize = 3, cs_index = 1, cs_cacheLine = []\<rparr>,
                     \<lparr>cs_setSize = 3, cs_index = 2, cs_cacheLine = []\<rparr>,
                     \<lparr>cs_setSize = 3, cs_index = 3, cs_cacheLine = []\<rparr>],
      ct_memRef = [], ct_totalCacheSize = 100, ct_lineSize = 8,
      ct_setSize = 3, ct_numberOfSets = 4, ct_indexSize = 2, ct_offsetSize = 3,
      ct_totalHits = 0, ct_totalMiss = 0, ct_totalAccess = 0,
      ct_offsetMask = 7, ct_indexMask = 24\<rparr>"

section \<open>Properties of one set\<close>

subsection \<open>The two loops of a set\<close>

lemma check_loop_Some_iff:
  "check_loop tag ls = Some i \<longleftrightarrow>
     i < length ls \<and> cl_tag (ls ! i) = tag \<and> (\<forall>j<i. cl_tag (ls ! j) \<noteq> tag)"
proof (induction ls arbitrary: i)
  case Nil
  then show ?case by simp
next
  case (Cons l ls)
  show ?case
  proof (cases "tag = cl_tag l")
    case True
    then show ?thesis by (cases i) auto
  next
    case False
    show ?thesis
    proof (cases i)
      case 0
      with False show ?thesis by auto
    next
      case (Suc k)
      with False Cons.IH [of k] show ?thesis
        by (auto simp: less_Suc_eq_0_disj)
    qed
  qed
qed

lemma check_loop_None_iff:
  "check_loop tag ls = None \<longleftrightarrow> tag \<notin> cl_tag ` set ls"
  by (induction ls) auto

lemma fold_first_max:
  fixes g :: "nat \<Rightarrow> 'a::linorder"
  defines "f \<equiv> (\<lambda>it cur. if g cur < g it then it else cur)"
  shows "0 < n \<Longrightarrow> fold f [0..<n] 0 < n
           \<and> (\<forall>j<n. g j \<le> g (fold f [0..<n] 0))
           \<and> (\<forall>j<fold f [0..<n] 0. g j < g (fold f [0..<n] 0))"
proof (induction n)
  case 0
  then show ?case by simp
next
  case (Suc n)
  show ?case
  proof (cases "n = 0")
    case True
    then show ?thesis by (simp add: f_def)
  next
    case False
    then have IH: "fold f [0..<n] 0 < n"
      "\<forall>j<n. g j \<le> g (fold f [0..<n] 0)"
      "\<forall>j<fold f [0..<n] 0. g j < g (fold f [0..<n] 0)"
      using Suc.IH by auto
    show ?thesis
    proof (cases "g (fold f [0..<n] 0) < g n")
      case True
      then have r: "fold f [0..<Suc n] 0 = n" by (simp add: f_def)
      from True IH(2) show ?thesis unfolding r
        by (auto simp: less_Suc_eq)
    next
      case False
      then have r: "fold f [0..<Suc n] 0 = fold f [0..<n] 0" by (simp add: f_def)
      from False IH show ?thesis unfolding r
        by (auto simp: less_Suc_eq)
    qed
  qed
qed


lemma find_LRU_first_max:
  assumes "cs_cacheLine s \<noteq> []"
  shows "find_LRU s < length (cs_cacheLine s)"
    and "\<forall>j<length (cs_cacheLine s).
           cl_LRUFlag (cs_cacheLine s ! j) \<le> cl_LRUFlag (cs_cacheLine s ! find_LRU s)"
    and "\<forall>j<find_LRU s.
           cl_LRUFlag (cs_cacheLine s ! j) < cl_LRUFlag (cs_cacheLine s ! find_LRU s)"
  using fold_first_max [of "length (cs_cacheLine s)" "\<lambda>i. cl_LRUFlag (cs_cacheLine s ! i)"] assms
  by (simp_all add: find_LRU_def)


subsection \<open>Lookup of a resident tag\<close>

text \<open>
  C2. For every set and every tag that some line of the set carries, \<open>check_cache_lines\<close>
  reports a hit. The line it matches is the first line with that tag, at position \<open>i\<close>;
  afterwards its LRU counter is 0, the counter of every other line is the old one plus 1
  (in \<open>unsigned long\<close> arithmetic), and the set has as many lines as before, with the
  same tags in the same order.
\<close>

theorem lookup_hit_ages_set:
  assumes "tag \<in> cl_tag ` set (cs_cacheLine s)"
  shows "\<exists>i s'. check_cache_lines s tag = (True, s')
           \<and> i < length (cs_cacheLine s) \<and> cl_tag (cs_cacheLine s ! i) = tag
           \<and> (\<forall>j<i. cl_tag (cs_cacheLine s ! j) \<noteq> tag)
           \<and> length (cs_cacheLine s') = length (cs_cacheLine s)
           \<and> map cl_tag (cs_cacheLine s') = map cl_tag (cs_cacheLine s)
           \<and> cl_LRUFlag (cs_cacheLine s' ! i) = 0
           \<and> (\<forall>j<length (cs_cacheLine s). j \<noteq> i \<longrightarrow>
                 cl_LRUFlag (cs_cacheLine s' ! j) = cl_LRUFlag (cs_cacheLine s ! j) + 1)
           \<and> cs_setSize s' = cs_setSize s \<and> cs_index s' = cs_index s"
proof -
  from assms obtain i where i: "check_loop tag (cs_cacheLine s) = Some i"
    using check_loop_None_iff [of tag "cs_cacheLine s"] by (cases "check_loop tag (cs_cacheLine s)") auto
  then have b: "i < length (cs_cacheLine s)" "cl_tag (cs_cacheLine s ! i) = tag"
    "\<forall>j<i. cl_tag (cs_cacheLine s ! j) \<noteq> tag"
    by (simp_all add: check_loop_Some_iff)
  define s' where "s' = (update_LRUs s)\<lparr>cs_cacheLine :=
      (cs_cacheLine (update_LRUs s))[i := set_LRU (cs_cacheLine (update_LRUs s) ! i)]\<rparr>"
  have r: "check_cache_lines s tag = (True, s')"
    using i by (simp add: check_cache_lines_def s'_def Let_def)
  have ls: "cs_cacheLine s' = (map increment_LRU (cs_cacheLine s))
              [i := set_LRU (increment_LRU (cs_cacheLine s ! i))]"
    using b(1) by (simp add: s'_def update_LRUs_def)
  have tags: "map cl_tag (cs_cacheLine s') = map cl_tag (cs_cacheLine s)"
    unfolding ls using b(1)
    by (simp add: list_eq_iff_nth_eq nth_list_update set_LRU_def increment_LRU_def)
  have zero: "cl_LRUFlag (cs_cacheLine s' ! i) = 0"
    unfolding ls using b(1) by (simp add: set_LRU_def)
  have others: "\<forall>j<length (cs_cacheLine s). j \<noteq> i \<longrightarrow>
                 cl_LRUFlag (cs_cacheLine s' ! j) = cl_LRUFlag (cs_cacheLine s ! j) + 1"
    unfolding ls by (simp add: increment_LRU_def)
  have frame: "cs_setSize s' = cs_setSize s" "cs_index s' = cs_index s"
    by (simp_all add: s'_def update_LRUs_def)
  have len: "length (cs_cacheLine s') = length (cs_cacheLine s)"
    unfolding ls by simp
  from r b len tags zero others frame show ?thesis by blast
qed


theorem lookup_hit_ages_set_witness:
  "(9 :: ulong) \<in> cl_tag ` set (cs_cacheLine \<lparr>cs_setSize = 2, cs_index = 0,
        cs_cacheLine = [\<lparr>cl_tag = 7, cl_LRUFlag = 3\<rparr>, \<lparr>cl_tag = 9, cl_LRUFlag = 5\<rparr>]\<rparr>)
   \<and> check_cache_lines \<lparr>cs_setSize = 2, cs_index = 0,
        cs_cacheLine = [\<lparr>cl_tag = 7, cl_LRUFlag = 3\<rparr>, \<lparr>cl_tag = 9, cl_LRUFlag = 5\<rparr>]\<rparr> 9
     = (True, \<lparr>cs_setSize = 2, cs_index = 0,
        cs_cacheLine = [\<lparr>cl_tag = 7, cl_LRUFlag = 4\<rparr>, \<lparr>cl_tag = 9, cl_LRUFlag = 0\<rparr>]\<rparr>)"
  using lookup_hit_ages_set [of 9 "\<lparr>cs_setSize = 2, cs_index = 0,
        cs_cacheLine = [\<lparr>cl_tag = 7, cl_LRUFlag = 3\<rparr>, \<lparr>cl_tag = 9, cl_LRUFlag = 5\<rparr>]\<rparr>"]
  by (simp add: check_cache_lines_def update_LRUs_def increment_LRU_def set_LRU_def)

subsection \<open>Replacement in a full set\<close>

text \<open>
  C3. For every set that holds exactly \<open>setSize_\<close> lines, with \<open>setSize_\<close> not 0 (a set
  size is a positive number), \<open>update_cache_lines\<close> succeeds and picks as victim the
  position \<open>v\<close> whose LRU counter is maximal, the first such position in iteration order:
  no counter is greater and every earlier one is strictly smaller. Afterwards the victim
  carries the new tag with counter 0, every other line keeps its tag and has its counter
  incremented by 1, and the set still holds \<open>setSize_\<close> lines.
\<close>

theorem replace_in_full_set:
  assumes "length (cs_cacheLine s) = unat (cs_setSize s)" and "cs_setSize s \<noteq> 0"
  shows "\<exists>v s'. update_cache_lines s tag = Some s'
           \<and> v < length (cs_cacheLine s)
           \<and> (\<forall>j<length (cs_cacheLine s).
                 cl_LRUFlag (cs_cacheLine s ! j) \<le> cl_LRUFlag (cs_cacheLine s ! v))
           \<and> (\<forall>j<v. cl_LRUFlag (cs_cacheLine s ! j) < cl_LRUFlag (cs_cacheLine s ! v))
           \<and> length (cs_cacheLine s') = unat (cs_setSize s')
           \<and> cs_cacheLine s' ! v = \<lparr>cl_tag = tag, cl_LRUFlag = 0\<rparr>
           \<and> (\<forall>j<length (cs_cacheLine s). j \<noteq> v \<longrightarrow>
                 cs_cacheLine s' ! j =
                   \<lparr>cl_tag = cl_tag (cs_cacheLine s ! j),
                    cl_LRUFlag = cl_LRUFlag (cs_cacheLine s ! j) + 1\<rparr>)
           \<and> cs_setSize s' = cs_setSize s \<and> cs_index s' = cs_index s"
proof -
  from assms have ne: "cs_cacheLine s \<noteq> []"
    by (auto simp: unat_eq_0)
  define v where "v = find_LRU s"
  have v: "v < length (cs_cacheLine s)"
    "\<forall>j<length (cs_cacheLine s).
       cl_LRUFlag (cs_cacheLine s ! j) \<le> cl_LRUFlag (cs_cacheLine s ! v)"
    "\<forall>j<v. cl_LRUFlag (cs_cacheLine s ! j) < cl_LRUFlag (cs_cacheLine s ! v)"
    unfolding v_def using find_LRU_first_max [OF ne] by simp_all
  define s' where "s' = (update_LRUs s)\<lparr>cs_cacheLine :=
      (cs_cacheLine (update_LRUs s))[v := set_LRU (setTag tag (cs_cacheLine (update_LRUs s) ! v))]\<rparr>"
  have r: "update_cache_lines s tag = Some s'"
    using assms(1) v(1) by (simp add: update_cache_lines_def Let_def s'_def v_def update_LRUs_def)
  have ls: "cs_cacheLine s' = (map increment_LRU (cs_cacheLine s))
              [v := set_LRU (setTag tag (increment_LRU (cs_cacheLine s ! v)))]"
    using v(1) by (simp add: s'_def update_LRUs_def)
  have frame: "cs_setSize s' = cs_setSize s" "cs_index s' = cs_index s"
    by (simp_all add: s'_def update_LRUs_def)
  have len: "length (cs_cacheLine s') = unat (cs_setSize s')"
    unfolding ls frame using assms(1) by simp
  have victim: "cs_cacheLine s' ! v = \<lparr>cl_tag = tag, cl_LRUFlag = 0\<rparr>"
    unfolding ls using v(1) by (simp add: set_LRU_def setTag_def increment_LRU_def)
  have others: "\<forall>j<length (cs_cacheLine s). j \<noteq> v \<longrightarrow>
                 cs_cacheLine s' ! j =
                   \<lparr>cl_tag = cl_tag (cs_cacheLine s ! j),
                    cl_LRUFlag = cl_LRUFlag (cs_cacheLine s ! j) + 1\<rparr>"
    unfolding ls by (simp add: increment_LRU_def)
  from r v len victim others frame show ?thesis by blast
qed

theorem replace_in_full_set_witness:
  "length (cs_cacheLine \<lparr>cs_setSize = 3, cs_index = 0,
        cs_cacheLine = [\<lparr>cl_tag = 7, cl_LRUFlag = 1\<rparr>, \<lparr>cl_tag = 8, cl_LRUFlag = 4\<rparr>,
                        \<lparr>cl_tag = 9, cl_LRUFlag = 4\<rparr>]\<rparr>) = unat (3 :: uint)
   \<and> (3 :: uint) \<noteq> 0
   \<and> update_cache_lines \<lparr>cs_setSize = 3, cs_index = 0,
        cs_cacheLine = [\<lparr>cl_tag = 7, cl_LRUFlag = 1\<rparr>, \<lparr>cl_tag = 8, cl_LRUFlag = 4\<rparr>,
                        \<lparr>cl_tag = 9, cl_LRUFlag = 4\<rparr>]\<rparr> 5
     = Some \<lparr>cs_setSize = 3, cs_index = 0,
        cs_cacheLine = [\<lparr>cl_tag = 7, cl_LRUFlag = 2\<rparr>, \<lparr>cl_tag = 5, cl_LRUFlag = 0\<rparr>,
                        \<lparr>cl_tag = 9, cl_LRUFlag = 5\<rparr>]\<rparr>"
  using replace_in_full_set [of "\<lparr>cs_setSize = 3, cs_index = 0,
        cs_cacheLine = [\<lparr>cl_tag = 7, cl_LRUFlag = 1\<rparr>, \<lparr>cl_tag = 8, cl_LRUFlag = 4\<rparr>,
                        \<lparr>cl_tag = 9, cl_LRUFlag = 4\<rparr>]\<rparr>" 5]
  by (simp add: update_cache_lines_def update_LRUs_def increment_LRU_def set_LRU_def
        setTag_def find_LRU_def upt_rec)

subsection \<open>Insertion into a set with room left\<close>

text \<open>
  C7. For every set that holds fewer than \<open>setSize_\<close> lines, \<open>update_cache_lines\<close> succeeds,
  appends one line that carries the new tag with LRU counter 0, and leaves every line
  that was resident before exactly as it was (tag and counter): inserting into a set that
  is not full does not age the resident lines.
\<close>

theorem insert_not_full_keeps_recency:
  assumes "length (cs_cacheLine s) < unat (cs_setSize s)"
  shows "\<exists>s'. update_cache_lines s tag = Some s'
           \<and> cs_cacheLine s' = cs_cacheLine s @ [\<lparr>cl_tag = tag, cl_LRUFlag = 0\<rparr>]
           \<and> (\<forall>j < length (cs_cacheLine s). cs_cacheLine s' ! j = cs_cacheLine s ! j)
           \<and> cs_setSize s' = cs_setSize s \<and> cs_index s' = cs_index s"
  using assms
  by (simp add: update_cache_lines_def add_new_cache_line_def set_LRU_def nth_append)

theorem insert_not_full_keeps_recency_witness:
  "length (cs_cacheLine \<lparr>cs_setSize = 2, cs_index = 0,
             cs_cacheLine = [\<lparr>cl_tag = 7, cl_LRUFlag = 3\<rparr>]\<rparr>) < unat (2 :: uint)
   \<and> update_cache_lines \<lparr>cs_setSize = 2, cs_index = 0,
             cs_cacheLine = [\<lparr>cl_tag = 7, cl_LRUFlag = 3\<rparr>]\<rparr> 9
     = Some \<lparr>cs_setSize = 2, cs_index = 0,
             cs_cacheLine = [\<lparr>cl_tag = 7, cl_LRUFlag = 3\<rparr>, \<lparr>cl_tag = 9, cl_LRUFlag = 0\<rparr>]\<rparr>"
  using insert_not_full_keeps_recency
    [of "\<lparr>cs_setSize = 2, cs_index = 0, cs_cacheLine = [\<lparr>cl_tag = 7, cl_LRUFlag = 3\<rparr>]\<rparr>" 9]
  by auto

subsection \<open>What one access does to a set\<close>

lemma check_cache_lines_miss:
  "tag \<notin> cl_tag ` set (cs_cacheLine s) \<Longrightarrow> check_cache_lines s tag = (False, s)"
  by (simp add: check_cache_lines_def check_loop_None_iff [THEN iffD2])

lemma check_cache_lines_hit:
  assumes "check_loop tag (cs_cacheLine s) = Some i"
  shows "check_cache_lines s tag =
           (True, s\<lparr>cs_cacheLine := (map increment_LRU (cs_cacheLine s))
                        [i := set_LRU (increment_LRU (cs_cacheLine s ! i))]\<rparr>)"
proof -
  from assms have "i < length (cs_cacheLine s)"
    by (simp add: check_loop_Some_iff)
  with assms show ?thesis
    by (simp add: check_cache_lines_def update_LRUs_def Let_def)
qed

lemma check_loop_resident:
  "tag \<in> cl_tag ` set ls \<Longrightarrow> \<exists>i. check_loop tag ls = Some i"
  using check_loop_None_iff [of tag ls] by (cases "check_loop tag ls") auto

lemma tags_after_hit:
  "i < length ls \<Longrightarrow>
   map cl_tag ((map increment_LRU ls)[i := set_LRU (increment_LRU (ls ! i))]) = map cl_tag ls"
  by (simp add: list_eq_iff_nth_eq nth_list_update set_LRU_def increment_LRU_def)

lemma check_cache_lines_frame_all:
  assumes "check_cache_lines s tag = (hm, s')"
  shows "hm = (tag \<in> cl_tag ` set (cs_cacheLine s))
    \<and> map cl_tag (cs_cacheLine s') = map cl_tag (cs_cacheLine s)
    \<and> cs_setSize s' = cs_setSize s \<and> cs_index s' = cs_index s
    \<and> (\<not> hm \<longrightarrow> s' = s)"
proof (cases "tag \<in> cl_tag ` set (cs_cacheLine s)")
  case True
  then obtain i where i: "check_loop tag (cs_cacheLine s) = Some i"
    using check_loop_resident by blast
  then have "i < length (cs_cacheLine s)" by (simp add: check_loop_Some_iff)
  with True assms check_cache_lines_hit [OF i] tags_after_hit [of i "cs_cacheLine s"]
  show ?thesis by auto
next
  case False
  with assms check_cache_lines_miss [OF False] show ?thesis by auto
qed

lemma check_cache_lines_frame:
  assumes "check_cache_lines s tag = (hm, s')"
  shows "hm = (tag \<in> cl_tag ` set (cs_cacheLine s))"
    and "map cl_tag (cs_cacheLine s') = map cl_tag (cs_cacheLine s)"
    and "cs_setSize s' = cs_setSize s" and "cs_index s' = cs_index s"
    and "\<not> hm \<Longrightarrow> s' = s"
  using check_cache_lines_frame_all [OF assms] by simp_all

lemma CacheLine_overwrite:
  "l\<lparr>cl_tag := tag, cl_LRUFlag := n\<rparr> = \<lparr>cl_tag = tag, cl_LRUFlag = n\<rparr>"
  by (cases l) simp

lemma update_cache_lines_room:
  "length (cs_cacheLine s) < unat (cs_setSize s) \<Longrightarrow>
   update_cache_lines s tag =
     Some (s\<lparr>cs_cacheLine := cs_cacheLine s @ [\<lparr>cl_tag = tag, cl_LRUFlag = 0\<rparr>]\<rparr>)"
  by (simp add: update_cache_lines_def add_new_cache_line_def set_LRU_def)

lemma update_cache_lines_full:
  assumes "\<not> length (cs_cacheLine s) < unat (cs_setSize s)" and "cs_cacheLine s \<noteq> []"
  shows "update_cache_lines s tag =
     Some (s\<lparr>cs_cacheLine := (map increment_LRU (cs_cacheLine s))
                 [find_LRU s := \<lparr>cl_tag = tag, cl_LRUFlag = 0\<rparr>]\<rparr>)"
  using assms find_LRU_first_max(1) [OF assms(2)]
  by (simp add: update_cache_lines_def update_LRUs_def Let_def set_LRU_def setTag_def
        increment_LRU_def CacheLine_overwrite)

lemma update_cache_lines_undefined:
  "update_cache_lines s tag = None \<longleftrightarrow> cs_cacheLine s = [] \<and> cs_setSize s = 0"
proof (cases "length (cs_cacheLine s) < unat (cs_setSize s)")
  case True
  then have "cs_setSize s \<noteq> 0" by (auto simp: unat_eq_0)
  with True show ?thesis by (simp add: update_cache_lines_room)
next
  case False
  show ?thesis
  proof (cases "cs_cacheLine s = []")
    case True
    with False show ?thesis
      by (simp add: update_cache_lines_def update_LRUs_def Let_def unat_eq_0)
  next
    case ne: False
    with False show ?thesis by (simp add: update_cache_lines_full)
  qed
qed

lemma update_cache_lines_frame:
  assumes "update_cache_lines s tag = Some s'"
  shows "cs_setSize s' = cs_setSize s" and "cs_index s' = cs_index s"
    and "tag \<in> cl_tag ` set (cs_cacheLine s')"
    and "cs_cacheLine s' \<noteq> []"
proof -
  have "cs_setSize s' = cs_setSize s \<and> cs_index s' = cs_index s
        \<and> tag \<in> cl_tag ` set (cs_cacheLine s') \<and> cs_cacheLine s' \<noteq> []"
  proof (cases "length (cs_cacheLine s) < unat (cs_setSize s)")
    case True
    with assms show ?thesis by (auto simp: update_cache_lines_room)
  next
    case False
    with assms have ne: "cs_cacheLine s \<noteq> []"
      using update_cache_lines_undefined [of s tag] by (auto simp: unat_eq_0)
    have v: "find_LRU s < length (cs_cacheLine s)" by (rule find_LRU_first_max(1) [OF ne])
    have "\<lparr>cl_tag = tag, cl_LRUFlag = 0\<rparr> \<in> set ((map increment_LRU (cs_cacheLine s))
                 [find_LRU s := \<lparr>cl_tag = tag, cl_LRUFlag = 0\<rparr>])"
      using v by (simp add: set_update_memI)
    then have "tag \<in> cl_tag ` set ((map increment_LRU (cs_cacheLine s))
                 [find_LRU s := \<lparr>cl_tag = tag, cl_LRUFlag = 0\<rparr>])"
      by force
    with assms ne show ?thesis
      using update_cache_lines_full [OF False ne, of tag] by auto
  qed
  then show "cs_setSize s' = cs_setSize s" and "cs_index s' = cs_index s"
    and "tag \<in> cl_tag ` set (cs_cacheLine s')" and "cs_cacheLine s' \<noteq> []"
    by simp_all
qed

lemma set_inv_update_cache_lines:
  assumes "set_inv s" and "tag \<notin> cl_tag ` set (cs_cacheLine s)"
    and "update_cache_lines s tag = Some s'"
  shows "set_inv s'"
proof (cases "length (cs_cacheLine s) < unat (cs_setSize s)")
  case True
  with assms show ?thesis by (auto simp: update_cache_lines_room set_inv_def)
next
  case False
  with assms(3) have ne: "cs_cacheLine s \<noteq> []"
    using update_cache_lines_undefined [of s tag] by (auto simp: unat_eq_0)
  have s': "s' = s\<lparr>cs_cacheLine := (map increment_LRU (cs_cacheLine s))
                 [find_LRU s := \<lparr>cl_tag = tag, cl_LRUFlag = 0\<rparr>]\<rparr>"
    using update_cache_lines_full [OF False ne, of tag] assms(3) by simp
  have tags: "map cl_tag (cs_cacheLine s') = (map cl_tag (cs_cacheLine s))[find_LRU s := tag]"
    unfolding s' by (simp add: map_update increment_LRU_def comp_def)
  have "distinct ((map cl_tag (cs_cacheLine s))[find_LRU s := tag])"
    using assms(1,2) by (intro distinct_list_update) (auto simp: set_inv_def)
  with tags assms(1) show ?thesis
    by (simp add: set_inv_def s')
qed

lemma set_inv_check_cache_lines:
  assumes "set_inv s" and "check_cache_lines s tag = (hm, s')"
  shows "set_inv s'"
proof -
  have "length (map cl_tag (cs_cacheLine s')) = length (map cl_tag (cs_cacheLine s))"
    using check_cache_lines_frame(2) [OF assms(2)] by simp
  then have "length (cs_cacheLine s') = length (cs_cacheLine s)" by simp
  with assms(1) check_cache_lines_frame(2,3) [OF assms(2)] show ?thesis
    by (simp add: set_inv_def)
qed

section \<open>Properties of the cache table\<close>

subsection \<open>The loop over the sets\<close>

lemma lookup_set_Some_iff:
  "lookup_set index ss = Some k \<longleftrightarrow>
     k < length ss \<and> index = ucast (cs_index (ss ! k))
     \<and> (\<forall>j<k. index \<noteq> ucast (cs_index (ss ! j)))"
proof (induction ss arbitrary: k)
  case Nil
  then show ?case by simp
next
  case (Cons s ss)
  show ?case
  proof (cases "index = ucast (cs_index s)")
    case True
    then show ?thesis by (cases k) auto
  next
    case False
    show ?thesis
    proof (cases k)
      case 0
      with False show ?thesis by auto
    next
      case (Suc k')
      with False Cons.IH [of k'] show ?thesis
        by (auto simp: less_Suc_eq_0_disj)
    qed
  qed
qed

lemma lookup_set_None_iff:
  "lookup_set index ss = None \<longleftrightarrow> (\<forall>s \<in> set ss. index \<noteq> ucast (cs_index s))"
  by (induction ss) auto

lemma lookup_set_update:
  assumes "lookup_set index ss = Some k" and "cs_index s' = cs_index (ss ! k)"
  shows "lookup_set index (ss[k := s']) = Some k"
  using assms by (auto simp: lookup_set_Some_iff nth_list_update)

lemma determine_loop_no_set:
  "lookup_set index ss = None \<Longrightarrow> determine_loop index tag ss = Some (False, ss)"
  by (induction ss) (auto split: if_splits)

lemma determine_loop_at_set:
  "lookup_set index ss = Some k \<Longrightarrow>
   determine_loop index tag ss =
     map_option (\<lambda>(hm, s'). (hm, ss[k := s'])) (access_set (ss ! k) tag)"
proof (induction ss arbitrary: k)
  case Nil
  then show ?case by simp
next
  case (Cons s ss)
  show ?case
  proof (cases "index = ucast (cs_index s)")
    case True
    with Cons.prems have "k = 0" by simp
    with True show ?thesis
      by (auto simp: access_set_def option.map_comp comp_def split: prod.splits bool.splits)
  next
    case False
    with Cons.prems obtain k' where k: "k = Suc k'" "lookup_set index ss = Some k'"
      by auto
    from Cons.IH [OF k(2)] False k(1) show ?thesis
      by (auto simp: option.map_comp comp_def split: prod.splits
               intro!: option.map_cong)
  qed
qed

lemma access_set_frame:
  assumes "access_set s tag = Some (hm, s')"
  shows "hm = (tag \<in> cl_tag ` set (cs_cacheLine s))"
    and "cs_setSize s' = cs_setSize s" and "cs_index s' = cs_index s"
    and "tag \<in> cl_tag ` set (cs_cacheLine s')" and "cs_cacheLine s' \<noteq> []"
    and "set_inv s \<Longrightarrow> set_inv s'"
proof -
  obtain h s1 where c: "check_cache_lines s tag = (h, s1)" by (cases "check_cache_lines s tag")
  note f = check_cache_lines_frame [OF c]
  have "hm = (tag \<in> cl_tag ` set (cs_cacheLine s))
    \<and> cs_setSize s' = cs_setSize s \<and> cs_index s' = cs_index s
    \<and> tag \<in> cl_tag ` set (cs_cacheLine s') \<and> cs_cacheLine s' \<noteq> []
    \<and> (set_inv s \<longrightarrow> set_inv s')"
  proof (cases h)
    case True
    with assms c have e: "hm = True" "s' = s1" by (simp_all add: access_set_def)
    have "cl_tag ` set (cs_cacheLine s1) = cl_tag ` set (cs_cacheLine s)"
      using f(2) by (metis set_map)
    with True e f set_inv_check_cache_lines [OF _ c] show ?thesis by auto
  next
    case False
    with f have s1: "s1 = s" by simp
    from False assms c s1 have u: "update_cache_lines s tag = Some s'" and e: "hm = False"
      by (auto simp: access_set_def)
    from False f(1) have "tag \<notin> cl_tag ` set (cs_cacheLine s)" by simp
    with e update_cache_lines_frame [OF u] set_inv_update_cache_lines [OF _ _ u]
    show ?thesis by auto
  qed
  then show "hm = (tag \<in> cl_tag ` set (cs_cacheLine s))"
    and "cs_setSize s' = cs_setSize s" and "cs_index s' = cs_index s"
    and "tag \<in> cl_tag ` set (cs_cacheLine s')" and "cs_cacheLine s' \<noteq> []"
    and "set_inv s \<Longrightarrow> set_inv s'"
    by simp_all
qed

lemma access_set_defined:
  "can_insert s \<Longrightarrow> \<exists>hm s'. access_set s tag = Some (hm, s')"
proof -
  assume ci: "can_insert s"
  obtain h s1 where c: "check_cache_lines s tag = (h, s1)" by (cases "check_cache_lines s tag")
  show ?thesis
  proof (cases h)
    case True
    with c show ?thesis by (auto simp: access_set_def)
  next
    case False
    with check_cache_lines_frame(5) [OF c] have "s1 = s" by simp
    moreover from ci have "update_cache_lines s tag \<noteq> None"
      by (simp add: update_cache_lines_undefined can_insert_def)
    ultimately show ?thesis using c False by (auto simp: access_set_def)
  qed
qed

lemma determine_hit_or_miss_no_set:
  assumes "lookup_set index (ct_cacheSet t) = None"
  shows "determine_hit_or_miss t index tag
           = Some (False, t\<lparr>ct_totalMiss := ct_totalMiss t + 1\<rparr>)"
  using determine_loop_no_set [OF assms, of tag]
  by (simp add: determine_hit_or_miss_def)

lemma determine_hit_or_miss_at_set:
  assumes "lookup_set index (ct_cacheSet t) = Some k"
  shows "determine_hit_or_miss t index tag =
     map_option (\<lambda>(hm, s').
        (hm, if hm then t\<lparr>ct_cacheSet := (ct_cacheSet t)[k := s'],
                           ct_totalHits := ct_totalHits t + 1\<rparr>
             else t\<lparr>ct_cacheSet := (ct_cacheSet t)[k := s'],
                     ct_totalMiss := ct_totalMiss t + 1\<rparr>))
       (access_set (ct_cacheSet t ! k) tag)"
  using determine_loop_at_set [OF assms, of tag]
  by (cases "access_set (ct_cacheSet t ! k) tag")
     (auto simp: determine_hit_or_miss_def split: bool.splits)

lemma determine_hit_or_miss_counters:
  assumes "determine_hit_or_miss t index tag = Some (hm, t')"
  shows "ct_totalHits t' = ct_totalHits t + (if hm then 1 else 0)"
    and "ct_totalMiss t' = ct_totalMiss t + (if hm then 0 else 1)"
    and "ct_totalAccess t' = ct_totalAccess t" and "ct_memRef t' = ct_memRef t"
    and "ct_indexSize t' = ct_indexSize t" and "ct_offsetSize t' = ct_offsetSize t"
    and "ct_indexMask t' = ct_indexMask t" and "ct_offsetMask t' = ct_offsetMask t"
  using assms
  by (auto simp: determine_hit_or_miss_def split: option.splits prod.splits bool.splits)

lemma determine_hit_or_miss_sets:
  assumes "determine_hit_or_miss t index tag = Some (hm, t')"
  shows "length (ct_cacheSet t') = length (ct_cacheSet t)"
    and "\<forall>j<length (ct_cacheSet t).
           cs_index (ct_cacheSet t' ! j) = cs_index (ct_cacheSet t ! j)
         \<and> cs_setSize (ct_cacheSet t' ! j) = cs_setSize (ct_cacheSet t ! j)
         \<and> (set_inv (ct_cacheSet t ! j) \<longrightarrow> set_inv (ct_cacheSet t' ! j))
         \<and> (can_insert (ct_cacheSet t ! j) \<longrightarrow> can_insert (ct_cacheSet t' ! j))"
proof -
  have "length (ct_cacheSet t') = length (ct_cacheSet t)
    \<and> (\<forall>j<length (ct_cacheSet t).
           cs_index (ct_cacheSet t' ! j) = cs_index (ct_cacheSet t ! j)
         \<and> cs_setSize (ct_cacheSet t' ! j) = cs_setSize (ct_cacheSet t ! j)
         \<and> (set_inv (ct_cacheSet t ! j) \<longrightarrow> set_inv (ct_cacheSet t' ! j))
         \<and> (can_insert (ct_cacheSet t ! j) \<longrightarrow> can_insert (ct_cacheSet t' ! j)))"
  proof (cases "lookup_set index (ct_cacheSet t)")
    case None
    with assms determine_hit_or_miss_no_set [OF None, of tag] show ?thesis by auto
  next
    case (Some k)
    with assms determine_hit_or_miss_at_set [OF Some, of tag]
    obtain s' where a: "access_set (ct_cacheSet t ! k) tag = Some (hm, s')"
      and t': "ct_cacheSet t' = (ct_cacheSet t)[k := s']"
      by (auto split: if_splits)
    from Some have k: "k < length (ct_cacheSet t)" by (simp add: lookup_set_Some_iff)
    have "cs_index ((ct_cacheSet t)[k := s'] ! j) = cs_index (ct_cacheSet t ! j)
         \<and> cs_setSize ((ct_cacheSet t)[k := s'] ! j) = cs_setSize (ct_cacheSet t ! j)
         \<and> (set_inv (ct_cacheSet t ! j) \<longrightarrow> set_inv ((ct_cacheSet t)[k := s'] ! j))
         \<and> (can_insert (ct_cacheSet t ! j) \<longrightarrow> can_insert ((ct_cacheSet t)[k := s'] ! j))"
      if "j < length (ct_cacheSet t)" for j
    proof (cases "j = k")
      case True
      with k access_set_frame [OF a] show ?thesis by (simp add: can_insert_def)
    next
      case False
      then show ?thesis by simp
    qed
    then show ?thesis unfolding t' by simp
  qed
  then show "length (ct_cacheSet t') = length (ct_cacheSet t)"
    and "\<forall>j<length (ct_cacheSet t).
           cs_index (ct_cacheSet t' ! j) = cs_index (ct_cacheSet t ! j)
         \<and> cs_setSize (ct_cacheSet t' ! j) = cs_setSize (ct_cacheSet t ! j)
         \<and> (set_inv (ct_cacheSet t ! j) \<longrightarrow> set_inv (ct_cacheSet t' ! j))
         \<and> (can_insert (ct_cacheSet t ! j) \<longrightarrow> can_insert (ct_cacheSet t' ! j))"
    by simp_all
qed


lemma accesses_sets:
  assumes "accesses t ps = Some (hMs, t')"
  shows "length (ct_cacheSet t') = length (ct_cacheSet t)
    \<and> (\<forall>j<length (ct_cacheSet t).
           cs_index (ct_cacheSet t' ! j) = cs_index (ct_cacheSet t ! j)
         \<and> cs_setSize (ct_cacheSet t' ! j) = cs_setSize (ct_cacheSet t ! j)
         \<and> (set_inv (ct_cacheSet t ! j) \<longrightarrow> set_inv (ct_cacheSet t' ! j))
         \<and> (can_insert (ct_cacheSet t ! j) \<longrightarrow> can_insert (ct_cacheSet t' ! j)))"
  using assms
proof (induction ps arbitrary: t hMs)
  case Nil
  then show ?case by simp
next
  case (Cons p ps)
  obtain index tag where p: "p = (index, tag)" by (cases p)
  from Cons.prems p obtain hM t1 hs where
    d: "determine_hit_or_miss t index tag = Some (hM, t1)"
    and r: "accesses t1 ps = Some (hs, t')"
    by (auto split: Option.bind_splits)
  from determine_hit_or_miss_sets [OF d] Cons.IH [OF r] show ?case by simp
qed

lemma determine_hit_or_miss_defined:
  assumes "\<forall>s \<in> set (ct_cacheSet t). can_insert s"
  shows "\<exists>hM t'. determine_hit_or_miss t index tag = Some (hM, t')"
proof (cases "lookup_set index (ct_cacheSet t)")
  case None
  then show ?thesis by (auto simp: determine_hit_or_miss_no_set)
next
  case (Some k)
  then have "k < length (ct_cacheSet t)" by (simp add: lookup_set_Some_iff)
  with assms have "can_insert (ct_cacheSet t ! k)" by simp
  from access_set_defined [OF this, of tag] obtain hM s'
    where "access_set (ct_cacheSet t ! k) tag = Some (hM, s')" by blast
  with determine_hit_or_miss_at_set [OF Some, of tag] show ?thesis by auto
qed

lemma determine_hit_or_miss_can_insert:
  assumes "determine_hit_or_miss t index tag = Some (hM, t')"
    and "\<forall>s \<in> set (ct_cacheSet t). can_insert s"
  shows "\<forall>s \<in> set (ct_cacheSet t'). can_insert s"
proof
  fix s assume "s \<in> set (ct_cacheSet t')"
  then obtain j where j: "j < length (ct_cacheSet t')" "s = ct_cacheSet t' ! j"
    by (auto simp: in_set_conv_nth)
  note d = determine_hit_or_miss_sets [OF assms(1)]
  from j d(1) have j0: "j < length (ct_cacheSet t)" by simp
  with assms(2) have "can_insert (ct_cacheSet t ! j)" by simp
  with d(2) j0 j(2) show "can_insert s" by simp
qed

lemma accesses_defined:
  assumes "\<forall>s \<in> set (ct_cacheSet t). can_insert s"
  shows "\<exists>hMs t'. accesses t ps = Some (hMs, t')"
  using assms
proof (induction ps arbitrary: t)
  case Nil
  then show ?case by simp
next
  case (Cons p ps)
  obtain index tag where p: "p = (index, tag)" by (cases p)
  from determine_hit_or_miss_defined [OF Cons.prems, of index tag] obtain hM t1
    where d: "determine_hit_or_miss t index tag = Some (hM, t1)" by blast
  from Cons.IH [OF determine_hit_or_miss_can_insert [OF d Cons.prems]] obtain hMs t'
    where "accesses t1 ps = Some (hMs, t')" by blast
  with d p show ?case by simp
qed

lemmas access_simps = determine_hit_or_miss_def check_cache_lines_def
        update_cache_lines_def add_new_cache_line_def update_LRUs_def find_LRU_def
        increment_LRU_def set_LRU_def setTag_def upt_rec

lemma example_run:
  "accesses example_table [(1, 10), (1, 11), (1, 10), (1, 12)]
     = Some ([False, False, True, False], example_table_used)"
  by (simp add: example_table_def example_table_used_def access_simps)

subsection \<open>Structure of the sets\<close>

text \<open>
  C8. In every state that a sequence of accesses (calls of \<open>determine_hit_or_miss\<close> with
  any indices and tags) reaches from a cache whose sets are all empty, every set holds at
  most \<open>setSize_\<close> lines and no two lines of a set carry the same tag. (Every such
  sequence returns when no set has size 0, lemma \<open>accesses_defined\<close>.)
\<close>

theorem set_structure_invariant:
  assumes "\<forall>s \<in> set (ct_cacheSet t0). cs_cacheLine s = []"
    and "accesses t0 ps = Some (hMs, t)"
  shows "\<forall>s \<in> set (ct_cacheSet t).
           length (cs_cacheLine s) \<le> unat (cs_setSize s)
         \<and> distinct (map cl_tag (cs_cacheLine s))"
proof
  fix s assume "s \<in> set (ct_cacheSet t)"
  then obtain j where j: "j < length (ct_cacheSet t)" "s = ct_cacheSet t ! j"
    by (auto simp: in_set_conv_nth)
  note a = accesses_sets [OF assms(2)]
  from j a have j0: "j < length (ct_cacheSet t0)" by simp
  with assms(1) have "set_inv (ct_cacheSet t0 ! j)" by (simp add: set_inv_def)
  with a j0 have "set_inv (ct_cacheSet t ! j)" by simp
  with j(2) show "length (cs_cacheLine s) \<le> unat (cs_setSize s)
         \<and> distinct (map cl_tag (cs_cacheLine s))"
    by (simp add: set_inv_def)
qed

theorem set_structure_invariant_witness:
  "list_all (\<lambda>s. cs_cacheLine s = []) (ct_cacheSet example_table)
   \<and> accesses example_table [(1, 10), (1, 11), (1, 10), (1, 12)]
        = Some ([False, False, True, False], example_table_used)
   \<and> list_all (\<lambda>s. length (cs_cacheLine s) \<le> unat (cs_setSize s)
                   \<and> distinct (map cl_tag (cs_cacheLine s)))
        (ct_cacheSet example_table_used)"
proof -
  have h1: "\<forall>s \<in> set (ct_cacheSet example_table). cs_cacheLine s = []"
    by (simp add: example_table_def)
  from h1 example_run set_structure_invariant [OF h1 example_run] show ?thesis
    unfolding list_all_iff by (intro conjI)
qed

subsection \<open>Residency after an access\<close>

lemma access_then_hit:
  assumes "lookup_set index (ct_cacheSet t) = Some k"
    and "can_insert (ct_cacheSet t ! k)"
  shows "\<exists>hM t' t''. determine_hit_or_miss t index tag = Some (hM, t')
           \<and> hM = (tag \<in> cl_tag ` set (cs_cacheLine (ct_cacheSet t ! k)))
           \<and> lookup_set index (ct_cacheSet t') = Some k
           \<and> tag \<in> cl_tag ` set (cs_cacheLine (ct_cacheSet t' ! k))
           \<and> determine_hit_or_miss t' index tag = Some (True, t'')"
proof -
  from assms(1) have k: "k < length (ct_cacheSet t)" by (simp add: lookup_set_Some_iff)
  from access_set_defined [OF assms(2), of tag] obtain hM s'
    where a: "access_set (ct_cacheSet t ! k) tag = Some (hM, s')" by blast
  note f = access_set_frame [OF a]
  define t' where "t' = (if hM then t\<lparr>ct_cacheSet := (ct_cacheSet t)[k := s'],
                           ct_totalHits := ct_totalHits t + 1\<rparr>
             else t\<lparr>ct_cacheSet := (ct_cacheSet t)[k := s'],
                     ct_totalMiss := ct_totalMiss t + 1\<rparr>)"
  have d: "determine_hit_or_miss t index tag = Some (hM, t')"
    using determine_hit_or_miss_at_set [OF assms(1), of tag] a by (simp add: t'_def)
  have sets: "ct_cacheSet t' = (ct_cacheSet t)[k := s']" by (simp add: t'_def)
  have l': "lookup_set index (ct_cacheSet t') = Some k"
    unfolding sets by (rule lookup_set_update [OF assms(1) f(3)])
  have at: "ct_cacheSet t' ! k = s'" unfolding sets using k by simp
  have res: "tag \<in> cl_tag ` set (cs_cacheLine (ct_cacheSet t' ! k))"
    unfolding at by (rule f(4))
  have ci: "can_insert (ct_cacheSet t' ! k)"
    unfolding at using f(5) by (simp add: can_insert_def)
  from access_set_defined [OF ci, of tag] obtain hM2 s2
    where a2: "access_set (ct_cacheSet t' ! k) tag = Some (hM2, s2)" by blast
  from access_set_frame(1) [OF a2] res have "hM2" by simp
  with determine_hit_or_miss_at_set [OF l', of tag] a2
  have "\<exists>t''. determine_hit_or_miss t' index tag = Some (True, t'')" by simp
  with d f(1) l' res show ?thesis by blast
qed

text \<open>
  C10. Take a cache whose sets start empty with a set size that is not 0, any state \<open>t\<close>
  it reaches by a sequence of accesses, and any index that selects a set, at position
  \<open>k\<close>. Then the access \<open>determine_hit_or_miss t index tag\<close> returns; it is a hit exactly
  when the tag was resident in that set; afterwards the tag is resident in that set; and
  the same access repeated at once is a hit. (Lemma \<open>repeated_address_hits\<close> restates the
  last part for two references of a trace to one address.)
\<close>

theorem post_access_residency:
  assumes "\<forall>s \<in> set (ct_cacheSet t0). cs_cacheLine s = [] \<and> cs_setSize s \<noteq> 0"
    and "accesses t0 ps = Some (hMs, t)"
    and "lookup_set index (ct_cacheSet t) = Some k"
  shows "\<exists>hM t' t''. determine_hit_or_miss t index tag = Some (hM, t')
           \<and> hM = (tag \<in> cl_tag ` set (cs_cacheLine (ct_cacheSet t ! k)))
           \<and> lookup_set index (ct_cacheSet t') = Some k
           \<and> tag \<in> cl_tag ` set (cs_cacheLine (ct_cacheSet t' ! k))
           \<and> determine_hit_or_miss t' index tag = Some (True, t'')"
proof -
  note a = accesses_sets [OF assms(2)]
  from assms(3) have k: "k < length (ct_cacheSet t)" by (simp add: lookup_set_Some_iff)
  with a have k0: "k < length (ct_cacheSet t0)" by simp
  with assms(1) have "can_insert (ct_cacheSet t0 ! k)" by (simp add: can_insert_def)
  with a k0 have "can_insert (ct_cacheSet t ! k)" by simp
  from access_then_hit [OF assms(3) this] show ?thesis .
qed

theorem post_access_residency_witness:
  "list_all (\<lambda>s. cs_cacheLine s = [] \<and> cs_setSize s \<noteq> 0) (ct_cacheSet example_table)
   \<and> accesses example_table [(1, 10), (1, 11), (1, 10), (1, 12)]
        = Some ([False, False, True, False], example_table_used)
   \<and> lookup_set 1 (ct_cacheSet example_table_used) = Some 1
   \<and> (\<exists>hM t' t''. determine_hit_or_miss example_table_used 1 11 = Some (hM, t')
           \<and> hM = (11 \<in> cl_tag ` set (cs_cacheLine (ct_cacheSet example_table_used ! 1)))
           \<and> lookup_set 1 (ct_cacheSet t') = Some 1
           \<and> 11 \<in> cl_tag ` set (cs_cacheLine (ct_cacheSet t' ! 1))
           \<and> determine_hit_or_miss t' 1 11 = Some (True, t''))"
proof -
  have h1: "\<forall>s \<in> set (ct_cacheSet example_table). cs_cacheLine s = [] \<and> cs_setSize s \<noteq> 0"
    by (simp add: example_table_def)
  have h3: "lookup_set 1 (ct_cacheSet example_table_used) = Some 1"
    by (simp add: example_table_used_def)
  from h1 example_run h3 post_access_residency [OF h1 example_run h3, of 11] show ?thesis
    unfolding list_all_iff by (intro conjI)
qed

subsection \<open>An index that matches no set\<close>

text \<open>
  With two sets, numbered 0 and 1, the access with index 5 is reported as a miss
  (\<open>False\<close>), \<open>totalMiss\<close> counts it, and the run goes on with the next access.
\<close>

theorem unmatched_index_counterexample:
  "accesses example_table [(5, 10), (0, 10)]
     = Some ([False, False],
        example_table
          \<lparr>ct_cacheSet := [\<lparr>cs_setSize = 2, cs_index = 0,
                             cs_cacheLine = [\<lparr>cl_tag = 10, cl_LRUFlag = 0\<rparr>]\<rparr>,
                           \<lparr>cs_setSize = 2, cs_index = 1, cs_cacheLine = []\<rparr>],
           ct_totalMiss := 2\<rparr>)"
  by (simp add: example_table_def access_simps)

text \<open>
  C9, as the code has it. When the sets are numbered 0, 1, ... in order, as
  \<open>set_index_for_cache_sets\<close> leaves them, and the index is not below their number, the
  access changes no set, increments \<open>totalMiss\<close> and returns \<open>false\<close>: the reference is
  reported as a miss and the run continues with the references that follow. No error is
  raised. (With a geometry built by \<open>configure\<close> the case does not arise in a run, lemma
  \<open>configured_index_in_range\<close>.)
\<close>

theorem unmatched_index_is_miss:
  assumes "map cs_index (ct_cacheSet t) = map word_of_nat [0..<length (ct_cacheSet t)]"
    and "length (ct_cacheSet t) < 2 ^ 31"
    and "length (ct_cacheSet t) \<le> unat index"
  shows "determine_hit_or_miss t index tag
           = Some (False, t\<lparr>ct_totalMiss := ct_totalMiss t + 1\<rparr>)
       \<and> accesses t ((index, tag) # rest)
           = map_option (\<lambda>(hMs, t'). (False # hMs, t'))
               (accesses (t\<lparr>ct_totalMiss := ct_totalMiss t + 1\<rparr>) rest)"
proof -
  have "index \<noteq> ucast (cs_index s)" if "s \<in> set (ct_cacheSet t)" for s
  proof -
    from that obtain j where j: "j < length (ct_cacheSet t)" "s = ct_cacheSet t ! j"
      by (auto simp: in_set_conv_nth)
    have "cs_index s = map cs_index (ct_cacheSet t) ! j" using j by simp
    also have "\<dots> = word_of_nat j" unfolding assms(1) using j(1) by simp
    finally have i: "cs_index s = word_of_nat j" .
    from j(1) assms(2) have "j < 2 ^ 31" by simp
    then have "unat (ucast (word_of_nat j :: uint) :: ulong) = j"
      by (simp add: unsigned_ucast_eq unsigned_of_nat take_bit_nat_eq_self)
    with i j(1) assms(3) show ?thesis by auto
  qed
  then have n: "lookup_set index (ct_cacheSet t) = None"
    by (simp add: lookup_set_None_iff)
  have d: "determine_hit_or_miss t index tag
           = Some (False, t\<lparr>ct_totalMiss := ct_totalMiss t + 1\<rparr>)"
    by (rule determine_hit_or_miss_no_set [OF n])
  then show ?thesis
    by (cases "accesses (t\<lparr>ct_totalMiss := ct_totalMiss t + 1\<rparr>) rest") auto
qed


theorem unmatched_index_is_miss_witness:
  "map cs_index (ct_cacheSet example_table)
     = map word_of_nat [0..<length (ct_cacheSet example_table)]
   \<and> length (ct_cacheSet example_table) < 2 ^ 31
   \<and> length (ct_cacheSet example_table) \<le> unat (5 :: ulong)
   \<and> determine_hit_or_miss example_table 5 10
        = Some (False, example_table\<lparr>ct_totalMiss := ct_totalMiss example_table + 1\<rparr>)
   \<and> accesses example_table ((5, 10) # [(0, 10)])
        = map_option (\<lambda>(hMs, t'). (False # hMs, t'))
            (accesses (example_table\<lparr>ct_totalMiss := ct_totalMiss example_table + 1\<rparr>)
               [(0, 10)])"
proof -
  have h1: "map cs_index (ct_cacheSet example_table)
     = map word_of_nat [0..<length (ct_cacheSet example_table)]"
    by (simp add: example_table_def upt_rec)
  have h2: "length (ct_cacheSet example_table) < 2 ^ 31"
    by (simp add: example_table_def)
  have h3: "length (ct_cacheSet example_table) \<le> unat (5 :: ulong)"
    by (simp add: example_table_def)
  note r = unmatched_index_is_miss [OF h1 h2 h3, of 10 "[(0, 10)]"]
  from h1 h2 h3 r [THEN conjunct1] r [THEN conjunct2] show ?thesis
    by (intro conjI)
qed

subsection \<open>The scenario A, B, A, C\<close>

lemma scenario_sets:
  fixes A B C :: ulong
  assumes "cs_setSize s = 2" and "A \<noteq> B" and "A \<noteq> C" and "B \<noteq> C"
  shows "access_set (s\<lparr>cs_cacheLine := []\<rparr>) A
           = Some (False, s\<lparr>cs_cacheLine := [\<lparr>cl_tag = A, cl_LRUFlag = 0\<rparr>]\<rparr>)"
    and "access_set (s\<lparr>cs_cacheLine := [\<lparr>cl_tag = A, cl_LRUFlag = 0\<rparr>]\<rparr>) B
           = Some (False, s\<lparr>cs_cacheLine := [\<lparr>cl_tag = A, cl_LRUFlag = 0\<rparr>,
                                                 \<lparr>cl_tag = B, cl_LRUFlag = 0\<rparr>]\<rparr>)"
    and "access_set (s\<lparr>cs_cacheLine := [\<lparr>cl_tag = A, cl_LRUFlag = 0\<rparr>,
                                          \<lparr>cl_tag = B, cl_LRUFlag = 0\<rparr>]\<rparr>) A
           = Some (True, s\<lparr>cs_cacheLine := [\<lparr>cl_tag = A, cl_LRUFlag = 0\<rparr>,
                                                \<lparr>cl_tag = B, cl_LRUFlag = 1\<rparr>]\<rparr>)"
    and "access_set (s\<lparr>cs_cacheLine := [\<lparr>cl_tag = A, cl_LRUFlag = 0\<rparr>,
                                          \<lparr>cl_tag = B, cl_LRUFlag = 1\<rparr>]\<rparr>) C
           = Some (False, s\<lparr>cs_cacheLine := [\<lparr>cl_tag = A, cl_LRUFlag = 1\<rparr>,
                                                 \<lparr>cl_tag = C, cl_LRUFlag = 0\<rparr>]\<rparr>)"
  using assms
  by (simp_all add: access_set_def check_cache_lines_def update_cache_lines_def
        add_new_cache_line_def update_LRUs_def find_LRU_def increment_LRU_def set_LRU_def
        setTag_def upt_rec)

lemma determine_hit_or_miss_step:
  assumes "lookup_set index (ct_cacheSet t) = Some k"
    and "access_set (ct_cacheSet t ! k) tag = Some (hm, s')"
  shows "determine_hit_or_miss t index tag =
     Some (hm, if hm then t\<lparr>ct_cacheSet := (ct_cacheSet t)[k := s'],
                           ct_totalHits := ct_totalHits t + 1\<rparr>
             else t\<lparr>ct_cacheSet := (ct_cacheSet t)[k := s'],
                     ct_totalMiss := ct_totalMiss t + 1\<rparr>)"
  using determine_hit_or_miss_at_set [OF assms(1), of tag] assms(2) by simp

text \<open>
  C5. Let \<open>index\<close> select a set that is empty and has \<open>setSize_ = 2\<close>, and let \<open>A\<close>, \<open>B\<close>,
  \<open>C\<close> be distinct tags. The accesses \<open>A\<close>, \<open>B\<close>, \<open>A\<close>, \<open>C\<close> at that index return miss,
  miss, hit, miss, and afterwards the set holds exactly the tags \<open>A\<close> and \<open>C\<close> (\<open>B\<close> was
  replaced); the other sets are untouched.
\<close>

theorem lru_eviction_scenario:
  fixes A B C :: ulong
  assumes "lookup_set index (ct_cacheSet t) = Some k"
    and "cs_cacheLine (ct_cacheSet t ! k) = []"
    and "cs_setSize (ct_cacheSet t ! k) = 2"
    and "A \<noteq> B" and "A \<noteq> C" and "B \<noteq> C"
  shows "\<exists>t'. accesses t [(index, A), (index, B), (index, A), (index, C)]
                = Some ([False, False, True, False], t')
           \<and> cs_cacheLine (ct_cacheSet t' ! k)
                = [\<lparr>cl_tag = A, cl_LRUFlag = 1\<rparr>, \<lparr>cl_tag = C, cl_LRUFlag = 0\<rparr>]
           \<and> cl_tag ` set (cs_cacheLine (ct_cacheSet t' ! k)) = {A, C}
           \<and> (\<forall>j<length (ct_cacheSet t). j \<noteq> k \<longrightarrow> ct_cacheSet t' ! j = ct_cacheSet t ! j)"
proof -
  define s where "s = ct_cacheSet t ! k"
  define ss where "ss = ct_cacheSet t"
  from assms(1) have k: "k < length ss" by (simp add: lookup_set_Some_iff ss_def)
  have sz: "cs_setSize s = 2" using assms(3) by (simp add: s_def)
  have s0: "ss ! k = s\<lparr>cs_cacheLine := []\<rparr>"
    using assms(2) by (simp add: s_def ss_def)
  note sc = scenario_sets [OF sz assms(4,5,6)]
  define t1 where "t1 = t\<lparr>ct_cacheSet := ss[k := s\<lparr>cs_cacheLine :=
      [\<lparr>cl_tag = A, cl_LRUFlag = 0\<rparr>]\<rparr>], ct_totalMiss := ct_totalMiss t + 1\<rparr>"
  define t2 where "t2 = t1\<lparr>ct_cacheSet := ss[k := s\<lparr>cs_cacheLine :=
      [\<lparr>cl_tag = A, cl_LRUFlag = 0\<rparr>, \<lparr>cl_tag = B, cl_LRUFlag = 0\<rparr>]\<rparr>],
      ct_totalMiss := ct_totalMiss t1 + 1\<rparr>"
  define t3 where "t3 = t2\<lparr>ct_cacheSet := ss[k := s\<lparr>cs_cacheLine :=
      [\<lparr>cl_tag = A, cl_LRUFlag = 0\<rparr>, \<lparr>cl_tag = B, cl_LRUFlag = 1\<rparr>]\<rparr>],
      ct_totalHits := ct_totalHits t2 + 1\<rparr>"
  define t4 where "t4 = t3\<lparr>ct_cacheSet := ss[k := s\<lparr>cs_cacheLine :=
      [\<lparr>cl_tag = A, cl_LRUFlag = 1\<rparr>, \<lparr>cl_tag = C, cl_LRUFlag = 0\<rparr>]\<rparr>],
      ct_totalMiss := ct_totalMiss t3 + 1\<rparr>"
  have l0: "lookup_set index ss = Some k" using assms(1) by (simp add: ss_def)
  have lk: "lookup_set index (ss[k := s\<lparr>cs_cacheLine := ls\<rparr>]) = Some k" for ls
    by (rule lookup_set_update [OF l0]) (simp add: s_def ss_def)
  have d1: "determine_hit_or_miss t index A = Some (False, t1)"
    using determine_hit_or_miss_step [OF assms(1), of A False "s\<lparr>cs_cacheLine :=
      [\<lparr>cl_tag = A, cl_LRUFlag = 0\<rparr>]\<rparr>"] sc(1) s0
    by (simp add: t1_def ss_def)
  have d2: "determine_hit_or_miss t1 index B = Some (False, t2)"
    using determine_hit_or_miss_step [of index t1 k B False "s\<lparr>cs_cacheLine :=
      [\<lparr>cl_tag = A, cl_LRUFlag = 0\<rparr>, \<lparr>cl_tag = B, cl_LRUFlag = 0\<rparr>]\<rparr>"] sc(2) lk k
    by (simp add: t1_def t2_def)
  have d3: "determine_hit_or_miss t2 index A = Some (True, t3)"
    using determine_hit_or_miss_step [of index t2 k A True "s\<lparr>cs_cacheLine :=
      [\<lparr>cl_tag = A, cl_LRUFlag = 0\<rparr>, \<lparr>cl_tag = B, cl_LRUFlag = 1\<rparr>]\<rparr>"] sc(3) lk k
    by (simp add: t2_def t3_def)
  have d4: "determine_hit_or_miss t3 index C = Some (False, t4)"
    using determine_hit_or_miss_step [of index t3 k C False "s\<lparr>cs_cacheLine :=
      [\<lparr>cl_tag = A, cl_LRUFlag = 1\<rparr>, \<lparr>cl_tag = C, cl_LRUFlag = 0\<rparr>]\<rparr>"] sc(4) lk k
    by (simp add: t3_def t4_def)
  have run: "accesses t [(index, A), (index, B), (index, A), (index, C)]
                = Some ([False, False, True, False], t4)"
    by (simp add: d1 d2 d3 d4)
  have sets: "ct_cacheSet t4 = ss[k := s\<lparr>cs_cacheLine :=
      [\<lparr>cl_tag = A, cl_LRUFlag = 1\<rparr>, \<lparr>cl_tag = C, cl_LRUFlag = 0\<rparr>]\<rparr>]"
    by (simp add: t4_def)
  have lines: "cs_cacheLine (ct_cacheSet t4 ! k)
                = [\<lparr>cl_tag = A, cl_LRUFlag = 1\<rparr>, \<lparr>cl_tag = C, cl_LRUFlag = 0\<rparr>]"
    unfolding sets using k by simp
  have others: "\<forall>j<length (ct_cacheSet t). j \<noteq> k \<longrightarrow> ct_cacheSet t4 ! j = ct_cacheSet t ! j"
    unfolding sets by (simp add: ss_def)
  from run lines others show ?thesis by auto
qed

theorem lru_eviction_scenario_witness:
  "lookup_set 1 (ct_cacheSet example_table) = Some 1
   \<and> cs_cacheLine (ct_cacheSet example_table ! 1) = []
   \<and> cs_setSize (ct_cacheSet example_table ! 1) = 2
   \<and> (10 :: ulong) \<noteq> 11 \<and> (10 :: ulong) \<noteq> 12 \<and> (11 :: ulong) \<noteq> 12
   \<and> (\<exists>t'. accesses example_table [(1, 10), (1, 11), (1, 10), (1, 12)]
                = Some ([False, False, True, False], t')
           \<and> cs_cacheLine (ct_cacheSet t' ! 1)
                = [\<lparr>cl_tag = 10, cl_LRUFlag = 1\<rparr>, \<lparr>cl_tag = 12, cl_LRUFlag = 0\<rparr>]
           \<and> cl_tag ` set (cs_cacheLine (ct_cacheSet t' ! 1)) = {10, 12}
           \<and> (\<forall>j<length (ct_cacheSet example_table). j \<noteq> 1 \<longrightarrow>
                 ct_cacheSet t' ! j = ct_cacheSet example_table ! j))"
proof -
  have h1: "lookup_set 1 (ct_cacheSet example_table) = Some 1"
    by (simp add: example_table_def)
  have h2: "cs_cacheLine (ct_cacheSet example_table ! 1) = []"
    by (simp add: example_table_def)
  have h3: "cs_setSize (ct_cacheSet example_table ! 1) = 2"
    by (simp add: example_table_def)
  have h4: "(10 :: ulong) \<noteq> 11" and h5: "(10 :: ulong) \<noteq> 12" and h6: "(11 :: ulong) \<noteq> 12"
    by simp_all
  from h1 h2 h3 h4 h5 h6 lru_eviction_scenario [OF h1 h2 h3 h4 h5 h6] show ?thesis
    by (intro conjI)
qed

section \<open>Properties of a run over a trace\<close>

lemma read_mem_trace_body_effect:
  assumes "read_mem_trace_body t n ref = Some t'"
  shows "\<exists>m. ct_memRef t' = ct_memRef t @ [m]
           \<and> ct_totalAccess t' = ct_totalAccess t + 1
           \<and> ct_totalHits t' = ct_totalHits t + (if mr_hM m then 1 else 0)
           \<and> ct_totalMiss t' = ct_totalMiss t + (if mr_hM m then 0 else 1)"
proof -
  obtain rW sz address where r: "ref = (rW, sz, address)" by (cases ref)
  from assms r obtain m3 hM t1 where
    d: "determine_hit_or_miss t (scast (getIndex m3)) (mr_tag m3) = Some (hM, t1)"
    and t': "t' = t1\<lparr>ct_memRef := ct_memRef t1 @ [setHM hM m3],
                     ct_totalAccess := ct_totalAccess t1 + 1\<rparr>"
    by (auto simp: read_mem_trace_body_def Let_def split: Option.bind_splits)
  from determine_hit_or_miss_counters [OF d] show ?thesis
    unfolding t' by (simp add: setHM_def)
qed

lemma read_mem_trace_loop_append:
  "read_mem_trace_loop t n (xs @ ys) =
     read_mem_trace_loop t n xs \<bind> (\<lambda>t1. read_mem_trace_loop t1 (n + word_of_nat (length xs)) ys)"
proof (induction xs arbitrary: t n)
  case Nil
  then show ?case by simp
next
  case (Cons x xs)
  show ?case
  proof (cases "read_mem_trace_body t n x")
    case None
    then show ?thesis by simp
  next
    case (Some t2)
    with Cons.IH [of t2 "n + 1"] show ?thesis by (simp add: ac_simps)
  qed
qed

lemma read_mem_trace_loop_totals:
  assumes "read_mem_trace_loop t n trace = Some t'"
  shows "ct_totalAccess t' = ct_totalAccess t + word_of_nat (length trace)
       \<and> ct_totalHits t' + ct_totalMiss t'
           = ct_totalHits t + ct_totalMiss t + word_of_nat (length trace)"
  using assms
proof (induction trace arbitrary: t n)
  case Nil
  then show ?case by simp
next
  case (Cons x xs)
  from Cons.prems obtain t2 where b: "read_mem_trace_body t n x = Some t2"
    and r: "read_mem_trace_loop t2 (n + 1) xs = Some t'"
    by (auto split: Option.bind_splits)
  from read_mem_trace_body_effect [OF b]
  have s: "ct_totalAccess t2 = ct_totalAccess t + 1"
    "ct_totalHits t2 + ct_totalMiss t2 = ct_totalHits t + ct_totalMiss t + 1"
    by (auto split: if_splits)
  from Cons.IH [OF r] show ?case
    unfolding s by (simp add: ac_simps)
qed

lemma sint_increment:
  fixes c :: cint
  assumes "sint c \<noteq> 2 ^ 31 - 1"
  shows "sint (c + 1) = sint c + 1"
proof -
  have "sint c < 2 ^ 31" using sint_lt [of c] by simp
  with assms have "sint c + 1 < 2 ^ 31" by simp
  moreover have "- (2 ^ 31) \<le> sint c + 1" using sint_ge [of c] by simp
  ultimately show ?thesis
    by (simp add: sint_word_ariths signed_take_bit_int_eq_self)
qed


lemma read_mem_trace_at:
  assumes "read_mem_trace t trace = Some t'" and "k < length trace"
  shows "\<exists>tk tk'. read_mem_trace t (take k trace) = Some tk
           \<and> read_mem_trace_body tk (word_of_nat k) (trace ! k) = Some tk'
           \<and> read_mem_trace t (take (Suc k) trace) = Some tk'"
proof -
  have split: "trace = take k trace @ trace ! k # drop (Suc k) trace"
    using assms(2) by (rule id_take_nth_drop)
  have len: "length (take k trace) = k" using assms(2) by simp
  from assms(1) have "read_mem_trace_loop t 0 (take k trace @ trace ! k # drop (Suc k) trace)
                        = Some t'"
    unfolding read_mem_trace_def using split by simp
  then obtain tk where tk: "read_mem_trace_loop t 0 (take k trace) = Some tk"
    and rest: "read_mem_trace_loop tk (word_of_nat k) (trace ! k # drop (Suc k) trace) = Some t'"
    unfolding read_mem_trace_loop_append len by (auto split: Option.bind_splits)
  from rest obtain tk' where b: "read_mem_trace_body tk (word_of_nat k) (trace ! k) = Some tk'"
    by (auto split: Option.bind_splits)
  have "read_mem_trace_loop t 0 (take k trace @ [trace ! k]) = Some tk'"
    unfolding read_mem_trace_loop_append len using tk b by simp
  then have "read_mem_trace t (take (Suc k) trace) = Some tk'"
    using assms(2) by (simp add: read_mem_trace_def take_Suc_conv_app_nth)
  with tk b show ?thesis by (auto simp: read_mem_trace_def)
qed

lemma counter_step_order:
  fixes c c' :: cint
  assumes "c' = c \<or> c' = c + 1" and "sint c \<noteq> 2 ^ 31 - 1"
  shows "sint c \<le> sint c'"
  using assms sint_increment [of c] by auto

lemma read_mem_trace_body_defined:
  assumes "trace_ready t"
  shows "\<exists>t'. read_mem_trace_body t n ref = Some t' \<and> trace_ready t'"
proof -
  obtain rW sz address where r: "ref = (rW, sz, address)" by (cases ref)
  from assms have a: "unat (scast (ct_indexSize t) + scast (ct_offsetSize t) :: ulong) < 64"
    "unat (scast (ct_offsetSize t) :: ulong) < 64"
    "\<forall>s \<in> set (ct_cacheSet t). can_insert s"
    by (simp_all add: trace_ready_def)
  define m1 where "m1 = (MemRef_init n rW sz address)\<lparr>mr_tag :=
      drop_bit (unat (scast (ct_indexSize t) + scast (ct_offsetSize t) :: ulong)) address\<rparr>"
  define m2 where "m2 = m1\<lparr>mr_index :=
      drop_bit (unat (scast (ct_offsetSize t) :: ulong)) (address AND ct_indexMask t)\<rparr>"
  define m3 where "m3 = calculate_offset m2 (ct_offsetMask t)"
  have c1: "calculate_tag (MemRef_init n rW sz address)
              (scast (ct_indexSize t)) (scast (ct_offsetSize t)) = Some m1"
    using a(1) by (simp add: calculate_tag_def m1_def MemRef_init_def)
  have c2: "calculate_index m1 (ct_indexMask t) (scast (ct_offsetSize t)) = Some m2"
    using a(2) by (simp add: calculate_index_def m2_def m1_def MemRef_init_def)
  from determine_hit_or_miss_defined [OF a(3), of "scast (getIndex m3)" "mr_tag m3"]
  obtain hM t1 where d: "determine_hit_or_miss t (scast (getIndex m3)) (mr_tag m3) = Some (hM, t1)"
    by blast
  define t' where "t' = t1\<lparr>ct_memRef := ct_memRef t1 @ [setHM hM m3],
                             ct_totalAccess := ct_totalAccess t1 + 1\<rparr>"
  have b: "read_mem_trace_body t n ref = Some t'"
    by (simp add: read_mem_trace_body_def r c1 c2 m3_def [symmetric] d t'_def)
  have "trace_ready t'"
    using determine_hit_or_miss_counters(5,6) [OF d]
      determine_hit_or_miss_can_insert [OF d a(3)] a(1,2)
    by (simp add: trace_ready_def t'_def)
  with b show ?thesis by blast
qed

lemma read_mem_trace_loop_defined:
  assumes "trace_ready t"
  shows "\<exists>t'. read_mem_trace_loop t n trace = Some t'"
  using assms
proof (induction trace arbitrary: t n)
  case Nil
  then show ?case by simp
next
  case (Cons x xs)
  from read_mem_trace_body_defined [OF Cons.prems, of n x] obtain t2
    where b: "read_mem_trace_body t n x = Some t2" and r: "trace_ready t2" by blast
  from Cons.IH [OF r, of "n + 1"] b show ?case by simp
qed

text \<open>
  Two references to the same address in a row: when the index of the address selects a
  set, the second reference is recorded as a hit.
\<close>

lemma read_mem_trace_body_result:
  assumes "read_mem_trace_body t n (rW, sz, address) = Some t'"
  shows "\<exists>hM t1 m.
           determine_hit_or_miss t
             (scast (ucast (drop_bit (unat (scast (ct_offsetSize t) :: ulong))
                              (address AND ct_indexMask t)) :: cint))
             (drop_bit (unat (scast (ct_indexSize t) + scast (ct_offsetSize t) :: ulong)) address)
             = Some (hM, t1)
         \<and> ct_cacheSet t' = ct_cacheSet t1
         \<and> ct_memRef t' = ct_memRef t @ [m] \<and> mr_hM m = hM \<and> mr_address m = address
         \<and> ct_indexSize t' = ct_indexSize t \<and> ct_offsetSize t' = ct_offsetSize t
         \<and> ct_indexMask t' = ct_indexMask t \<and> ct_offsetMask t' = ct_offsetMask t"
proof -
  from assms obtain m1 m2 hM t1 where
    c1: "calculate_tag (MemRef_init n rW sz address)
              (scast (ct_indexSize t)) (scast (ct_offsetSize t)) = Some m1"
    and c2: "calculate_index m1 (ct_indexMask t) (scast (ct_offsetSize t)) = Some m2"
    and d: "determine_hit_or_miss t (scast (getIndex (calculate_offset m2 (ct_offsetMask t))))
              (mr_tag (calculate_offset m2 (ct_offsetMask t))) = Some (hM, t1)"
    and t': "t' = t1\<lparr>ct_memRef := ct_memRef t1 @ [setHM hM (calculate_offset m2 (ct_offsetMask t))],
                     ct_totalAccess := ct_totalAccess t1 + 1\<rparr>"
    by (auto simp: read_mem_trace_body_def Let_def split: Option.bind_splits)
  from c1 have m1: "m1 = (MemRef_init n rW sz address)\<lparr>mr_tag :=
      drop_bit (unat (scast (ct_indexSize t) + scast (ct_offsetSize t) :: ulong)) address\<rparr>"
    by (auto simp: calculate_tag_def MemRef_init_def split: if_splits)
  from c2 have m2: "m2 = m1\<lparr>mr_index :=
      drop_bit (unat (scast (ct_offsetSize t) :: ulong)) (address AND ct_indexMask t)\<rparr>"
    by (auto simp: calculate_index_def m1 MemRef_init_def split: if_splits)
  have g: "getIndex (calculate_offset m2 (ct_offsetMask t))
             = ucast (drop_bit (unat (scast (ct_offsetSize t) :: ulong))
                        (address AND ct_indexMask t))"
    "mr_tag (calculate_offset m2 (ct_offsetMask t))
       = drop_bit (unat (scast (ct_indexSize t) + scast (ct_offsetSize t) :: ulong)) address"
    "mr_address (calculate_offset m2 (ct_offsetMask t)) = address"
    by (simp_all add: getIndex_def calculate_offset_def m2 m1 MemRef_init_def)
  from d determine_hit_or_miss_counters [OF d] show ?thesis
    unfolding g t' by (simp add: setHM_def g(3) [unfolded calculate_offset_def] calculate_offset_def m2 m1 MemRef_init_def)
qed

lemma determine_hit_or_miss_same_sets:
  assumes "ct_cacheSet t = ct_cacheSet u"
  shows "map_option fst (determine_hit_or_miss t index tag)
           = map_option fst (determine_hit_or_miss u index tag)"
  using assms
  by (auto simp: determine_hit_or_miss_def split: option.splits bool.splits)

lemma repeated_address_hits:
  assumes "trace_ready t"
    and "lookup_set (scast (ucast (drop_bit (unat (scast (ct_offsetSize t) :: ulong))
                              (address AND ct_indexMask t)) :: cint)) (ct_cacheSet t) = Some k"
  shows "\<exists>t' t'' m m'. read_mem_trace_body t n (rW, sz, address) = Some t'
           \<and> read_mem_trace_body t' n' (rW', sz', address) = Some t''
           \<and> ct_memRef t'' = ct_memRef t @ [m, m'] \<and> mr_hM m'"
proof -
  define I where "I = (scast (ucast (drop_bit (unat (scast (ct_offsetSize t) :: ulong))
                              (address AND ct_indexMask t)) :: cint) :: ulong)"
  define T where "T = drop_bit (unat (scast (ct_indexSize t) + scast (ct_offsetSize t) :: ulong))
                        address"
  from read_mem_trace_body_defined [OF assms(1), of n "(rW, sz, address)"] obtain t'
    where b1: "read_mem_trace_body t n (rW, sz, address) = Some t'" and r1: "trace_ready t'"
    by blast
  from read_mem_trace_body_defined [OF r1, of n' "(rW', sz', address)"] obtain t''
    where b2: "read_mem_trace_body t' n' (rW', sz', address) = Some t''" by blast
  from read_mem_trace_body_result [OF b1] obtain hM t1 m where
    d1: "determine_hit_or_miss t I T = Some (hM, t1)"
    and f1: "ct_cacheSet t' = ct_cacheSet t1" "ct_memRef t' = ct_memRef t @ [m]"
      "ct_indexSize t' = ct_indexSize t" "ct_offsetSize t' = ct_offsetSize t"
      "ct_indexMask t' = ct_indexMask t"
    unfolding I_def T_def by blast
  from read_mem_trace_body_result [OF b2] obtain hM' t2 m' where
    d2: "determine_hit_or_miss t' I T = Some (hM', t2)"
    and f2: "ct_memRef t'' = ct_memRef t' @ [m']" "mr_hM m' = hM'"
    unfolding I_def T_def f1(3-5) by blast
  from assms(1) have "k < length (ct_cacheSet t)" "\<forall>s \<in> set (ct_cacheSet t). can_insert s"
    using assms(2) by (simp_all add: trace_ready_def lookup_set_Some_iff)
  then have ci: "can_insert (ct_cacheSet t ! k)" by simp
  from access_then_hit [OF assms(2) [folded I_def] ci, of T] d1 obtain t3 where
    h: "determine_hit_or_miss t1 I T = Some (True, t3)" by auto
  from determine_hit_or_miss_same_sets [OF f1(1), of I T] d2 h have "hM'" by simp
  with b1 b2 f1(2) f2 show ?thesis by auto
qed

text \<open>
  What a run does to the three counters, whatever values they start from. On a table that
  is \<open>trace_ready\<close> (every table that \<open>configure\<close> builds from positive sizes is, lemma
  \<open>configure_trace_ready\<close>), \<open>read_mem_trace\<close> returns for every trace. Afterwards
  \<open>totalAccess\<close> has grown by the number of references and \<open>totalHits + totalMiss\<close> by the
  same number, so that the sum equals \<open>totalAccess\<close> after the run exactly when it did
  before. Reference by reference, in trace order: the state \<open>tk\<close> after the first \<open>k\<close>
  references exists, the loop body takes it to the state \<open>tk'\<close> after \<open>k + 1\<close> references,
  and that step adds 1 to \<open>totalAccess\<close> and 1 to exactly one of \<open>totalHits\<close> and
  \<open>totalMiss\<close>, leaving the other unchanged. Read as \<open>int\<close>s, none of the three counters
  decreases in a step, short of the increment of \<open>INT_MAX\<close>.
\<close>

lemma totals_accounting:
  assumes "trace_ready t"
  shows "\<exists>t'. read_mem_trace t trace = Some t'
    \<and> ct_totalAccess t' = ct_totalAccess t + word_of_nat (length trace)
    \<and> ct_totalHits t' + ct_totalMiss t'
        = ct_totalHits t + ct_totalMiss t + word_of_nat (length trace)
    \<and> (ct_totalHits t + ct_totalMiss t = ct_totalAccess t
         \<longrightarrow> ct_totalHits t' + ct_totalMiss t' = ct_totalAccess t')
    \<and> (\<forall>k<length trace. \<exists>tk tk'.
           read_mem_trace t (take k trace) = Some tk
         \<and> read_mem_trace_body tk (word_of_nat k) (trace ! k) = Some tk'
         \<and> read_mem_trace t (take (Suc k) trace) = Some tk'
         \<and> ct_totalAccess tk' = ct_totalAccess tk + 1
         \<and> (ct_totalHits tk' = ct_totalHits tk + 1 \<and> ct_totalMiss tk' = ct_totalMiss tk
            \<or> ct_totalHits tk' = ct_totalHits tk \<and> ct_totalMiss tk' = ct_totalMiss tk + 1)
         \<and> (sint (ct_totalAccess tk) \<noteq> 2 ^ 31 - 1
              \<longrightarrow> sint (ct_totalAccess tk) \<le> sint (ct_totalAccess tk'))
         \<and> (sint (ct_totalHits tk) \<noteq> 2 ^ 31 - 1
              \<longrightarrow> sint (ct_totalHits tk) \<le> sint (ct_totalHits tk'))
         \<and> (sint (ct_totalMiss tk) \<noteq> 2 ^ 31 - 1
              \<longrightarrow> sint (ct_totalMiss tk) \<le> sint (ct_totalMiss tk')))"
proof -
  from read_mem_trace_loop_defined [OF assms, of 0 trace] obtain t'
    where run: "read_mem_trace t trace = Some t'" by (auto simp: read_mem_trace_def)
  from run have tot: "ct_totalAccess t' = ct_totalAccess t + word_of_nat (length trace)"
    "ct_totalHits t' + ct_totalMiss t'
        = ct_totalHits t + ct_totalMiss t + word_of_nat (length trace)"
    using read_mem_trace_loop_totals [of t 0 trace t'] by (simp_all add: read_mem_trace_def)
  have steps: "\<exists>tk tk'.
           read_mem_trace t (take k trace) = Some tk
         \<and> read_mem_trace_body tk (word_of_nat k) (trace ! k) = Some tk'
         \<and> read_mem_trace t (take (Suc k) trace) = Some tk'
         \<and> ct_totalAccess tk' = ct_totalAccess tk + 1
         \<and> (ct_totalHits tk' = ct_totalHits tk + 1 \<and> ct_totalMiss tk' = ct_totalMiss tk
            \<or> ct_totalHits tk' = ct_totalHits tk \<and> ct_totalMiss tk' = ct_totalMiss tk + 1)
         \<and> (sint (ct_totalAccess tk) \<noteq> 2 ^ 31 - 1
              \<longrightarrow> sint (ct_totalAccess tk) \<le> sint (ct_totalAccess tk'))
         \<and> (sint (ct_totalHits tk) \<noteq> 2 ^ 31 - 1
              \<longrightarrow> sint (ct_totalHits tk) \<le> sint (ct_totalHits tk'))
         \<and> (sint (ct_totalMiss tk) \<noteq> 2 ^ 31 - 1
              \<longrightarrow> sint (ct_totalMiss tk) \<le> sint (ct_totalMiss tk'))"
    if k: "k < length trace" for k
  proof -
    from read_mem_trace_at [OF run k] obtain tk tk' where
      r: "read_mem_trace t (take k trace) = Some tk"
      "read_mem_trace_body tk (word_of_nat k) (trace ! k) = Some tk'"
      "read_mem_trace t (take (Suc k) trace) = Some tk'"
      by blast
    from read_mem_trace_body_effect [OF r(2)] have
      a: "ct_totalAccess tk' = ct_totalAccess tk + 1"
      and hm: "ct_totalHits tk' = ct_totalHits tk + 1 \<and> ct_totalMiss tk' = ct_totalMiss tk
            \<or> ct_totalHits tk' = ct_totalHits tk \<and> ct_totalMiss tk' = ct_totalMiss tk + 1"
      by (auto split: if_splits)
    have o1: "sint (ct_totalAccess tk) \<noteq> 2 ^ 31 - 1
              \<longrightarrow> sint (ct_totalAccess tk) \<le> sint (ct_totalAccess tk')"
      using a counter_step_order [of "ct_totalAccess tk'" "ct_totalAccess tk"] by simp
    have o2: "sint (ct_totalHits tk) \<noteq> 2 ^ 31 - 1
              \<longrightarrow> sint (ct_totalHits tk) \<le> sint (ct_totalHits tk')"
      using hm counter_step_order [of "ct_totalHits tk'" "ct_totalHits tk"] by auto
    have o3: "sint (ct_totalMiss tk) \<noteq> 2 ^ 31 - 1
              \<longrightarrow> sint (ct_totalMiss tk) \<le> sint (ct_totalMiss tk')"
      using hm counter_step_order [of "ct_totalMiss tk'" "ct_totalMiss tk"] by auto
    from r a hm o1 o2 o3 show ?thesis by blast
  qed
  from run tot steps show ?thesis by simp
qed


lemmas trace_simps = read_mem_trace_def read_mem_trace_body_def calculate_tag_def
  calculate_index_def calculate_offset_def MemRef_init_def getIndex_def setHM_def

lemma example_trace_run: "read_mem_trace example_table example_trace = Some example_table_traced"
  by (simp add: example_table_def example_trace_def example_table_traced_def trace_simps
        access_simps)

lemma totals_accounting_example:
  "trace_ready example_table
   \<and> read_mem_trace example_table example_trace = Some example_table_traced
   \<and> ct_totalAccess example_table_traced
        = ct_totalAccess example_table + word_of_nat (length example_trace)
   \<and> ct_totalHits example_table_traced + ct_totalMiss example_table_traced
        = ct_totalAccess example_table_traced"
proof -
  have h: "trace_ready example_table"
    by (simp add: trace_ready_def can_insert_def example_table_def)
  have z: "ct_totalHits example_table + ct_totalMiss example_table
             = ct_totalAccess example_table"
    by (simp add: example_table_def)
  from totals_accounting [OF h, of example_trace] z example_trace_run
  have r: "ct_totalAccess example_table_traced
        = ct_totalAccess example_table + word_of_nat (length example_trace)
      \<and> ct_totalHits example_table_traced + ct_totalMiss example_table_traced
        = ct_totalAccess example_table_traced"
    by auto
  from h example_trace_run r [THEN conjunct1] r [THEN conjunct2] show ?thesis
    by (intro conjI)
qed

section \<open>Properties of the geometry\<close>

subsection \<open>Bit fields and masks\<close>

lemma index_mask_bits:
  "(mask (ib + ob) :: ulong) - mask ob = push_bit ob (mask ib)"
  by (simp add: mask_eq_exp_minus_1 push_bit_eq_mult power_add algebra_simps)

lemma partition_reconstruct:
  fixes a :: ulong
  shows "(a AND mask ob) OR push_bit ob (drop_bit ob (a AND push_bit ob (mask ib)))
           OR push_bit (ob + ib) (drop_bit (ib + ob) a) = a"
proof (rule bit_word_eqI)
  fix n assume n: "n < LENGTH(64)"
  consider "n < ob" | "ob \<le> n" "n < ob + ib" | "ob + ib \<le> n" by linarith
  then show "bit ((a AND mask ob) OR push_bit ob (drop_bit ob (a AND push_bit ob (mask ib)))
           OR push_bit (ob + ib) (drop_bit (ib + ob) a)) n = bit a n"
  proof cases
    case 1
    with n show ?thesis by (auto simp: bit_simps)
  next
    case 2
    with n show ?thesis by (auto simp: bit_simps)
  next
    case 3
    with n show ?thesis by (auto simp: bit_simps add.commute)
  qed
qed

lemma partition_disjoint:
  fixes a :: ulong
  shows "(a AND mask ob) AND push_bit ob (drop_bit ob (a AND push_bit ob (mask ib))) = 0"
    and "(a AND mask ob) AND push_bit (ob + ib) (drop_bit (ib + ob) a) = 0"
    and "push_bit ob (drop_bit ob (a AND push_bit ob (mask ib)))
           AND push_bit (ob + ib) (drop_bit (ib + ob) a) = 0"
  by (rule bit_word_eqI; auto simp: bit_simps)+

lemma index_field:
  fixes a :: ulong
  shows "drop_bit ob (a AND push_bit ob (mask ib)) = drop_bit ob a AND mask ib"
  by (rule bit_word_eqI) (auto simp: bit_simps dest: bit_imp_le_length)

lemma scast_nonneg:
  fixes w :: cint
  assumes "0 \<le> sint w"
  shows "unat (scast w :: ulong) = nat (sint w)"
proof -
  have "sint w < 2 ^ 31" using sint_lt [of w] by simp
  also have "(2 :: int) ^ 31 < 2 ^ LENGTH(64)" by simp
  finally have "take_bit LENGTH(64) (sint w) = sint w"
    using assms by (intro take_bit_int_eq_self)
  then show ?thesis
    by (simp only: scast_eq unsigned_of_int of_nat_eq_id id_apply)
qed


lemma round_double_exact: "\<bar>n\<bar> < 2 ^ 53 \<Longrightarrow> round_double n = n"
  by (simp add: round_double_def)

lemma pow2_le_53: "k \<le> 53 \<Longrightarrow> (2 :: int) ^ k \<le> 2 ^ 53"
  by (rule power_increasing) simp_all

lemma word_of_int_mask: "(word_of_int (2 ^ k - 1) :: ulong) = mask k"
  by (simp add: mask_eq_exp_minus_1)

lemma mask_double_exact:
  assumes "k \<le> 53"
  shows "ulong_of_double (round_double (2 ^ k - 1)) = Some (mask k)"
proof -
  have p: "(2 :: int) ^ k \<le> 2 ^ 53" using assms by (rule pow2_le_53)
  have pos: "(0 :: int) < 2 ^ k" by simp
  from p pos have "\<bar>(2 :: int) ^ k - 1\<bar> < 2 ^ 53" by linarith
  then have r: "round_double (2 ^ k - 1) = 2 ^ k - 1" by (rule round_double_exact)
  have "(2 :: int) ^ 53 < 2 ^ 64" by simp
  with p have "(2 :: int) ^ k - 1 < 2 ^ 64" by linarith
  moreover have "(0 :: int) \<le> 2 ^ k - 1" using pos by linarith
  ultimately show ?thesis
    unfolding r ulong_of_double_def by (simp only: if_True word_of_int_mask simp_thms)
qed

lemma calculate_offset_mask_exact:
  assumes "0 \<le> sint (ct_offsetSize t)" and "sint (ct_offsetSize t) \<le> 53"
  shows "calculate_offset_mask t
           = Some (t\<lparr>ct_offsetMask := mask (nat (sint (ct_offsetSize t)))\<rparr>)"
proof -
  from assms(2) have "nat (sint (ct_offsetSize t)) \<le> 53" by simp
  from mask_double_exact [OF this] assms(1) show ?thesis
    by (simp add: calculate_offset_mask_def Let_def)
qed

lemma uint_mask_ulong: "k \<le> 53 \<Longrightarrow> uint (mask k :: ulong) = 2 ^ k - 1"
  by (simp add: uint_mask_eq min_def mask_int_def)

lemma index_mask_double_exact:
  assumes "ib + ob \<le> 53"
  shows "ulong_of_double (round_double (round_double (2 ^ (ib + ob) - 1)
            - round_double (uint (mask ob :: ulong)))) = Some (mask (ib + ob) - mask ob)"
proof -
  from assms have ob: "ob \<le> 53" by simp
  have p: "(2 :: int) ^ (ib + ob) \<le> 2 ^ 53" using assms by (rule pow2_le_53)
  have q: "(2 :: int) ^ ob \<le> 2 ^ (ib + ob)" by (rule power_increasing) simp_all
  have pos: "(0 :: int) < 2 ^ ob" by simp
  from p q pos have 1: "\<bar>(2 :: int) ^ (ib + ob) - 1\<bar> < 2 ^ 53"
    and 2: "\<bar>(2 :: int) ^ ob - 1\<bar> < 2 ^ 53"
    and 3: "\<bar>((2 :: int) ^ (ib + ob) - 1) - (2 ^ ob - 1)\<bar> < 2 ^ 53"
    by linarith+
  have r: "round_double (round_double (2 ^ (ib + ob) - 1) - round_double (uint (mask ob :: ulong)))
             = (2 ^ (ib + ob) - 1) - (2 ^ ob - 1)"
    unfolding uint_mask_ulong [OF ob] round_double_exact [OF 1] round_double_exact [OF 2]
      round_double_exact [OF 3] ..
  have lo: "(0 :: int) \<le> (2 ^ (ib + ob) - 1) - (2 ^ ob - 1)" using q by linarith
  have "(2 :: int) ^ 53 < 2 ^ 64" by simp
  with p pos have hi: "((2 :: int) ^ (ib + ob) - 1) - (2 ^ ob - 1) < 2 ^ 64" by linarith
  have w: "(word_of_int ((2 ^ (ib + ob) - 1) - (2 ^ ob - 1)) :: ulong)
             = mask (ib + ob) - mask ob"
    by (simp add: mask_eq_exp_minus_1)
  from lo hi show ?thesis
    unfolding r ulong_of_double_def by (simp only: if_True w simp_thms)
qed

lemma calculate_index_mask_exact:
  assumes "0 \<le> sint (ct_indexSize t)" and "0 \<le> sint (ct_offsetSize t)"
    and "sint (ct_indexSize t) + sint (ct_offsetSize t) \<le> 53"
    and "ct_offsetMask t = mask (nat (sint (ct_offsetSize t)))"
  shows "calculate_index_mask t
           = Some (t\<lparr>ct_indexMask :=
                mask (nat (sint (ct_indexSize t)) + nat (sint (ct_offsetSize t)))
                  - mask (nat (sint (ct_offsetSize t)))\<rparr>)"
proof -
  have n: "nat (sint (ct_indexSize t) + sint (ct_offsetSize t))
            = nat (sint (ct_indexSize t)) + nat (sint (ct_offsetSize t))"
    using assms(1,2) by (simp add: nat_add_distrib)
  from assms(1,2,3) have "nat (sint (ct_indexSize t)) + nat (sint (ct_offsetSize t)) \<le> 53"
    by linarith
  from index_mask_double_exact [OF this] assms(1,2,3) show ?thesis
    by (simp add: calculate_index_mask_def Let_def n assms(4))
qed


lemma field_bound:
  fixes x :: ulong
  assumes "n \<le> 53"
  shows "x AND mask n < 2 ^ n"
proof -
  from assms have "n < LENGTH(64)" by simp
  then show ?thesis by (rule and_mask_less')
qed

text \<open>
  C1. Take any table whose bit counts \<open>indexSize_\<close> and \<open>offsetSize_\<close> are not negative
  and sum to at most 53, the range in which the double arithmetic of the two masks is
  exact (the counts that \<open>configure\<close> derives from a configuration sum to at most 30,
  lemma \<open>configure_positive\<close> below), and any reference. With \<open>ob\<close> and \<open>ib\<close> the two
  counts: the masks are \<open>offsetMask = 2^ob - 1\<close> and
  \<open>indexMask = (2^(ib + ob) - 1) - offsetMask\<close>; the decomposition succeeds with
  \<open>offset = address AND offsetMask\<close>, \<open>index = (address AND indexMask) >> ob\<close> and
  \<open>tag = address >> (ib + ob)\<close>; \<open>offset OR (index << ob) OR (tag << (ob + ib))\<close> is the
  address again; the three fields, at their positions, are pairwise disjoint; and the
  offset is below \<open>2^ob\<close>, the index below \<open>2^ib\<close>.
\<close>

theorem address_partition:
  fixes t :: CacheTable and m :: MemRef
  defines "ob \<equiv> nat (sint (ct_offsetSize t))" and "ib \<equiv> nat (sint (ct_indexSize t))"
  assumes "0 \<le> sint (ct_indexSize t)" and "0 \<le> sint (ct_offsetSize t)"
    and "sint (ct_indexSize t) + sint (ct_offsetSize t) \<le> 53"
  shows "\<exists>t1 t2 m1 m2 m3.
           calculate_offset_mask t = Some t1 \<and> calculate_index_mask t1 = Some t2
         \<and> ct_offsetMask t2 = 2 ^ ob - 1
         \<and> ct_indexMask t2 = (2 ^ (ib + ob) - 1) - ct_offsetMask t2
         \<and> calculate_tag m (scast (ct_indexSize t2)) (scast (ct_offsetSize t2)) = Some m1
         \<and> calculate_index m1 (ct_indexMask t2) (scast (ct_offsetSize t2)) = Some m2
         \<and> calculate_offset m2 (ct_offsetMask t2) = m3
         \<and> mr_offset m3 = mr_address m AND ct_offsetMask t2
         \<and> mr_index m3 = drop_bit ob (mr_address m AND ct_indexMask t2)
         \<and> mr_tag m3 = drop_bit (ib + ob) (mr_address m)
         \<and> mr_offset m3 OR push_bit ob (mr_index m3) OR push_bit (ob + ib) (mr_tag m3)
             = mr_address m
         \<and> mr_offset m3 AND push_bit ob (mr_index m3) = 0
         \<and> mr_offset m3 AND push_bit (ob + ib) (mr_tag m3) = 0
         \<and> push_bit ob (mr_index m3) AND push_bit (ob + ib) (mr_tag m3) = 0
         \<and> mr_offset m3 < 2 ^ ob \<and> mr_index m3 < 2 ^ ib"
proof -
  define a where "a = mr_address m"
  define t1 where "t1 = t\<lparr>ct_offsetMask := mask ob\<rparr>"
  define t2 where "t2 = t1\<lparr>ct_indexMask := mask (ib + ob) - mask ob\<rparr>"
  from assms(3-5) have le: "sint (ct_offsetSize t) \<le> 53" "ib + ob \<le> 53" "ob \<le> 53" "ib \<le> 53"
    by (simp_all add: ob_def ib_def)
  have c1: "calculate_offset_mask t = Some t1"
    unfolding t1_def ob_def by (rule calculate_offset_mask_exact [OF assms(4) le(1)])
  have c2: "calculate_index_mask t1 = Some t2"
    using calculate_index_mask_exact [of t1] assms(3-5)
    by (simp add: t1_def t2_def ob_def ib_def)
  have f: "ct_offsetMask t2 = mask ob" "ct_indexMask t2 = mask (ib + ob) - mask ob"
    "ct_indexSize t2 = ct_indexSize t" "ct_offsetSize t2 = ct_offsetSize t"
    by (simp_all add: t1_def t2_def)
  have so: "unat (scast (ct_offsetSize t) :: ulong) = ob"
    unfolding ob_def by (rule scast_nonneg [OF assms(4)])
  have si: "unat (scast (ct_indexSize t) :: ulong) = ib"
    unfolding ib_def by (rule scast_nonneg [OF assms(3)])
  have "unat (scast (ct_indexSize t) + scast (ct_offsetSize t) :: ulong)
          = (ib + ob) mod 2 ^ LENGTH(64)"
    by (simp only: unat_word_ariths si so)
  also have "\<dots> = ib + ob" using le(2) by simp
  finally have sum: "unat (scast (ct_indexSize t) + scast (ct_offsetSize t) :: ulong) = ib + ob" .
  define m1 where "m1 = m\<lparr>mr_tag := drop_bit (ib + ob) a\<rparr>"
  define m2 where "m2 = m1\<lparr>mr_index := drop_bit ob (a AND (mask (ib + ob) - mask ob))\<rparr>"
  define m3 where "m3 = m2\<lparr>mr_offset := a AND mask ob\<rparr>"
  have d1: "calculate_tag m (scast (ct_indexSize t2)) (scast (ct_offsetSize t2)) = Some m1"
    using le(2) by (simp add: calculate_tag_def f sum m1_def a_def)
  have d2: "calculate_index m1 (ct_indexMask t2) (scast (ct_offsetSize t2)) = Some m2"
    using le(3) by (simp add: calculate_index_def f so m2_def m1_def a_def)
  have d3: "calculate_offset m2 (ct_offsetMask t2) = m3"
    by (simp add: calculate_offset_def f m3_def m2_def m1_def a_def)
  have v: "mr_offset m3 = a AND mask ob"
    "mr_index m3 = drop_bit ob (a AND push_bit ob (mask ib))"
    "mr_tag m3 = drop_bit (ib + ob) a"
    by (simp_all add: m3_def m2_def m1_def index_mask_bits)
  have masks: "ct_offsetMask t2 = 2 ^ ob - 1"
    "ct_indexMask t2 = (2 ^ (ib + ob) - 1) - ct_offsetMask t2"
    by (simp_all add: f mask_eq_exp_minus_1)
  have e: "mr_offset m3 = mr_address m AND ct_offsetMask t2"
    "mr_index m3 = drop_bit ob (mr_address m AND ct_indexMask t2)"
    "mr_tag m3 = drop_bit (ib + ob) (mr_address m)"
    by (simp_all add: v f a_def index_mask_bits)
  have re: "mr_offset m3 OR push_bit ob (mr_index m3) OR push_bit (ob + ib) (mr_tag m3)
             = mr_address m"
    unfolding v by (simp only: partition_reconstruct a_def)
  have dj: "mr_offset m3 AND push_bit ob (mr_index m3) = 0"
    "mr_offset m3 AND push_bit (ob + ib) (mr_tag m3) = 0"
    "push_bit ob (mr_index m3) AND push_bit (ob + ib) (mr_tag m3) = 0"
    unfolding v by (simp_all only: partition_disjoint)
  have b: "mr_offset m3 < 2 ^ ob" "mr_index m3 < 2 ^ ib"
    unfolding v index_field by (rule field_bound [OF le(3)], rule field_bound [OF le(4)])
  from c1 c2 masks d1 d2 d3 e re dj b show ?thesis by blast
qed

theorem address_partition_witness:
  "0 \<le> sint (ct_indexSize example_table) \<and> 0 \<le> sint (ct_offsetSize example_table)
   \<and> sint (ct_indexSize example_table) + sint (ct_offsetSize example_table) \<le> 53
   \<and> (\<exists>t1 t2 m1 m2 m3.
           calculate_offset_mask example_table = Some t1 \<and> calculate_index_mask t1 = Some t2
         \<and> ct_offsetMask t2 = 15 \<and> ct_indexMask t2 = 16
         \<and> calculate_tag (MemRef_init 0 READ 4 0xABCD)
              (scast (ct_indexSize t2)) (scast (ct_offsetSize t2)) = Some m1
         \<and> calculate_index m1 (ct_indexMask t2) (scast (ct_offsetSize t2)) = Some m2
         \<and> calculate_offset m2 (ct_offsetMask t2) = m3
         \<and> mr_offset m3 = 0xD \<and> mr_index m3 = 0 \<and> mr_tag m3 = 0x55E
         \<and> mr_offset m3 OR push_bit 4 (mr_index m3) OR push_bit 5 (mr_tag m3) = 0xABCD)"
proof -
  have h1: "0 \<le> sint (ct_indexSize example_table)"
    and h2: "0 \<le> sint (ct_offsetSize example_table)"
    and h3: "sint (ct_indexSize example_table) + sint (ct_offsetSize example_table) \<le> 53"
    by (simp_all add: example_table_def)
  have v: "nat (sint (ct_offsetSize example_table)) = 4"
    "nat (sint (ct_indexSize example_table)) = 1"
    by (simp_all add: example_table_def)
  have a: "mr_address (MemRef_init 0 READ 4 0xABCD) = 0xABCD" by (simp add: MemRef_init_def)
  from address_partition [OF h1 h2 h3, of "MemRef_init 0 READ 4 0xABCD"]
  obtain t1 t2 m1 m2 m3 where r:
    "calculate_offset_mask example_table = Some t1" "calculate_index_mask t1 = Some t2"
    "ct_offsetMask t2 = 2 ^ 4 - 1" "ct_indexMask t2 = (2 ^ (1 + 4) - 1) - ct_offsetMask t2"
    "calculate_tag (MemRef_init 0 READ 4 0xABCD)
       (scast (ct_indexSize t2)) (scast (ct_offsetSize t2)) = Some m1"
    "calculate_index m1 (ct_indexMask t2) (scast (ct_offsetSize t2)) = Some m2"
    "calculate_offset m2 (ct_offsetMask t2) = m3"
    "mr_offset m3 = 0xABCD AND ct_offsetMask t2"
    "mr_index m3 = drop_bit 4 (0xABCD AND ct_indexMask t2)"
    "mr_tag m3 = drop_bit (1 + 4) 0xABCD"
    "mr_offset m3 OR push_bit 4 (mr_index m3) OR push_bit (4 + 1) (mr_tag m3) = 0xABCD"
    unfolding v a by blast
  have m: "ct_offsetMask t2 = 15" "ct_indexMask t2 = 16" using r(3,4) by simp_all
  have o: "mr_offset m3 = 0xD" "mr_index m3 = 0" "mr_tag m3 = 0x55E"
    unfolding r(8-10) m by simp_all
  from r(11) have re: "mr_offset m3 OR push_bit 4 (mr_index m3) OR push_bit 5 (mr_tag m3) = 0xABCD"
    by simp
  from r(1,2) m r(5-7) o re
  have "\<exists>t1 t2 m1 m2 m3.
           calculate_offset_mask example_table = Some t1 \<and> calculate_index_mask t1 = Some t2
         \<and> ct_offsetMask t2 = 15 \<and> ct_indexMask t2 = 16
         \<and> calculate_tag (MemRef_init 0 READ 4 0xABCD)
              (scast (ct_indexSize t2)) (scast (ct_offsetSize t2)) = Some m1
         \<and> calculate_index m1 (ct_indexMask t2) (scast (ct_offsetSize t2)) = Some m2
         \<and> calculate_offset m2 (ct_offsetMask t2) = m3
         \<and> mr_offset m3 = 0xD \<and> mr_index m3 = 0 \<and> mr_tag m3 = 0x55E
         \<and> mr_offset m3 OR push_bit 4 (mr_index m3) OR push_bit 5 (mr_tag m3) = 0xABCD"
    by blast
  with h1 h2 h3 show ?thesis by (intro conjI)
qed

subsection \<open>The derivation from a configuration\<close>

lemma log2_int_bounds:
  "0 < n \<Longrightarrow> 2 ^ log2_int n \<le> n \<and> n < 2 ^ Suc (log2_int n)"
proof (induction n rule: log2_int.induct)
  case (1 n)
  show ?case
  proof (cases "n < 2")
    case True
    with "1.prems" have "n = 1" by simp
    then show ?thesis by (simp add: log2_int.simps)
  next
    case False
    then have "0 < n div 2" by simp
    with "1.IH" False have IH: "2 ^ log2_int (n div 2) \<le> n div 2"
      "n div 2 < 2 ^ Suc (log2_int (n div 2))" by simp_all
    have e: "log2_int n = Suc (log2_int (n div 2))"
      using False by (subst log2_int.simps) simp
    from IH show ?thesis unfolding e by simp linarith
  qed
qed

lemma log2_int_product:
  assumes "0 < a" and "0 < b" and "a * b < 2 ^ 31"
  shows "log2_int a + log2_int b \<le> 30"
proof -
  have la: "2 ^ log2_int a \<le> a" using log2_int_bounds [OF assms(1)] by (rule conjunct1)
  have lb: "2 ^ log2_int b \<le> b" using log2_int_bounds [OF assms(2)] by (rule conjunct1)
  have "2 ^ (log2_int a + log2_int b) = 2 ^ log2_int a * (2 :: nat) ^ log2_int b"
    by (rule power_add)
  also have "\<dots> \<le> a * b"
    using la lb by (rule mult_le_mono)
  also have "\<dots> < 2 ^ 31" by (rule assms(3))
  finally have X: "(2 :: nat) ^ (log2_int a + log2_int b) < 2 ^ 31" .
  have "log2_int a + log2_int b < 31"
    by (rule power_less_imp_less_exp [OF _ X]) simp
  then show ?thesis by simp
qed

lemma sint_of_int_cint:
  assumes "- (2 ^ 31) \<le> k" and "k < 2 ^ 31"
  shows "sint (word_of_int k :: cint) = k"
  using assms by (simp add: sint_sbintrunc' signed_take_bit_int_eq_self)

lemma sint_of_nat_cint:
  assumes "k \<le> 30"
  shows "sint (word_of_nat k :: cint) = int k"
proof -
  have "word_of_nat k = (word_of_int (int k) :: cint)" by simp
  moreover have "int k < 2 ^ 31" using assms by simp
  ultimately show ?thesis using sint_of_int_cint [of "int k"] by simp
qed

lemma int_div_positive:
  assumes "0 \<le> sint a" and "0 < sint b"
  shows "int_div a b = Some (word_of_int (sint a div sint b))"
    and "sint (word_of_int (sint a div sint b) :: cint) = sint a div sint b"
proof -
  from assms have s: "sint a sdiv sint b = sint a div sint b"
    by (cases "sint a = 0") (simp_all add: signed_divide_int_def)
  from assms have b: "b \<noteq> 0" by auto
  from assms have "\<not> (sint a = - (2 ^ 31) \<and> sint b = - 1)" by simp
  with b s show "int_div a b = Some (word_of_int (sint a div sint b))"
    by (simp add: int_div_def)
  have "sint a div sint b \<le> sint a div 1"
    using assms by (intro zdiv_mono2) simp_all
  then have "sint a div sint b \<le> sint a" by simp
  moreover have "sint a < 2 ^ 31" using sint_lt [of a] by simp
  moreover have "0 \<le> sint a div sint b" using assms by (simp add: pos_imp_zdiv_nonneg_iff)
  ultimately show "sint (word_of_int (sint a div sint b) :: cint) = sint a div sint b"
    by (intro sint_of_int_cint) simp_all
qed

lemma set_index_loop_numbers:
  assumes "0 \<le> sint i" and "sint i + int (length ss) \<le> 2 ^ 31 - 1"
  shows "set_index_loop i ss
           = Some (map2 (\<lambda>k s. s\<lparr>cs_index := i + word_of_nat k\<rparr>) [0..<length ss] ss)"
  using assms
proof (induction ss arbitrary: i)
  case Nil
  then show ?case by simp
next
  case (Cons s ss)
  from Cons.prems have ne: "sint i \<noteq> 2 ^ 31 - 1" by simp
  then have inc: "sint (i + 1) = sint i + 1" by (rule sint_increment)
  with Cons.prems have "0 \<le> sint (i + 1)" "sint (i + 1) + int (length ss) \<le> 2 ^ 31 - 1"
    by simp_all
  from Cons.IH [OF this] have
    "set_index_loop (i + 1) ss
       = Some (map2 (\<lambda>k s. s\<lparr>cs_index := i + 1 + word_of_nat k\<rparr>) [0..<length ss] ss)" .
  moreover have "map2 (\<lambda>k s. s\<lparr>cs_index := i + word_of_nat k\<rparr>) [0..<length (s # ss)] (s # ss)
     = s\<lparr>cs_index := i\<rparr> # map2 (\<lambda>k s. s\<lparr>cs_index := i + 1 + word_of_nat k\<rparr>) [0..<length ss] ss"
    by (simp add: upt_conv_Cons map_Suc_upt [symmetric] zip_map1 split_def ac_simps
          del: upt_Suc)
  ultimately show ?case using ne by simp
qed

lemma map2_replicate:
  "map2 f [0..<m] (replicate m c) = map (\<lambda>k. f k c) [0..<m]"
  by (simp add: list_eq_iff_nth_eq)

lemma geometry_arith:
  fixes T L S :: int
  assumes "0 < S" and "0 < L" and "L * S \<le> T"
  shows "0 \<le> T" and "0 < T div L" and "0 < (T div L) div S" and "(T div L) div S * L \<le> T"
proof -
  from assms have "0 < L * S" by simp
  with assms(3) show T: "0 \<le> T" by simp
  have "(L * S) div L \<le> T div L" using assms(3,2) by (rule zdiv_mono1)
  with assms(2) have q: "S \<le> T div L" by simp
  with assms(1) show "0 < T div L" by simp
  from q assms(1) show "0 < (T div L) div S" by (simp add: pos_imp_zdiv_pos_iff)
  have "0 \<le> T div L" using T assms(2) by (simp add: pos_imp_zdiv_nonneg_iff)
  then have "(T div L) div S \<le> (T div L) div 1" using assms(1) by (intro zdiv_mono2) simp_all
  then have "(T div L) div S \<le> T div L" by simp
  then have "(T div L) div S * L \<le> T div L * L" using assms(2) by (intro mult_right_mono) simp_all
  moreover have "T div L * L + T mod L = T" by simp
  moreover have "0 \<le> T mod L" using assms(2) by simp
  ultimately show "(T div L) div S * L \<le> T" by linarith
qed

lemma configure_positive:
  assumes "ct_cacheSet t = []" and "0 < sint setSize" and "0 < sint lineSize"
    and "sint lineSize * sint setSize \<le> sint totalCacheSize"
  defines "n \<equiv> (sint totalCacheSize div sint lineSize) div sint setSize"
  defines "ib \<equiv> log2_int (nat n)" and "ob \<equiv> log2_int (nat (sint lineSize))"
  shows "\<exists>t'. configure t setSize lineSize totalCacheSize = Some t'
    \<and> ct_cacheSet t' = map (\<lambda>k. \<lparr>cs_setSize = setSize, cs_index = word_of_nat k,
                                    cs_cacheLine = []\<rparr>) [0..<nat n]
    \<and> sint (ct_numberOfSets t') = n \<and> 0 < n
    \<and> sint (ct_indexSize t') = int ib \<and> sint (ct_offsetSize t') = int ob
    \<and> ib + ob \<le> 30
    \<and> ct_offsetMask t' = mask ob \<and> ct_indexMask t' = mask (ib + ob) - mask ob
    \<and> ct_setSize t' = setSize \<and> ct_lineSize t' = lineSize
    \<and> ct_totalCacheSize t' = totalCacheSize
    \<and> ct_memRef t' = ct_memRef t \<and> ct_totalHits t' = ct_totalHits t
    \<and> ct_totalMiss t' = ct_totalMiss t \<and> ct_totalAccess t' = ct_totalAccess t"
proof -
  define T where "T = sint totalCacheSize"
  define L where "L = sint lineSize"
  define S where "S = sint setSize"
  have pos: "0 < S" "0 < L" "L * S \<le> T" using assms(2-4) by (simp_all add: T_def L_def S_def)
  note ar = geometry_arith [OF pos]
  have n: "n = (T div L) div S" by (simp add: n_def T_def L_def S_def)
  have Tlt: "T < 2 ^ 31" unfolding T_def using sint_lt [of totalCacheSize] by simp
  have npos: "0 < n" unfolding n by (rule ar(3))
  have nL: "n * L \<le> T" unfolding n by (rule ar(4))
  have "n * 1 \<le> n * L" using npos pos(2) by (intro mult_left_mono) simp_all
  with nL Tlt have nlt: "n < 2 ^ 31" by simp
  \<comment> \<open>the two divisions\<close>
  define qw :: cint where "qw = word_of_int (T div L)"
  have d1: "int_div totalCacheSize lineSize = Some qw"
    and q: "sint qw = T div L"
    using int_div_positive [of totalCacheSize lineSize] ar(1) pos(2)
    by (simp_all add: qw_def T_def L_def)
  define nw :: cint where "nw = word_of_int n"
  have d2: "int_div qw setSize = Some nw" and sn: "sint nw = n"
    using int_div_positive [of qw setSize] ar(2) pos(1) q
    by (simp_all add: nw_def n S_def)
  have nz: "lineSize \<noteq> 0" "setSize \<noteq> 0" using assms(2,3) by auto
  define t0 where "t0 = read_cache_config t setSize lineSize totalCacheSize"
  define t1 where "t1 = t0\<lparr>ct_numberOfSets := nw\<rparr>"
  have s1: "calculate_number_of_sets t0 = Some t1"
    using nz d1 d2 by (simp add: calculate_number_of_sets_def t0_def t1_def read_cache_config_def)
  \<comment> \<open>the sets and their numbers\<close>
  define sets where "sets = map (\<lambda>k. \<lparr>cs_setSize = setSize, cs_index = word_of_nat k,
                                    cs_cacheLine = []\<rparr>) [0..<nat n]"
  define t2 where "t2 = t1\<lparr>ct_cacheSet := sets\<rparr>"
  have "int (nat n) \<le> 2 ^ 31 - 1" using nlt npos by simp
  then have "set_index_loop 0 (replicate (nat n) (CacheSet_init setSize))
            = Some (map2 (\<lambda>k s. s\<lparr>cs_index := 0 + word_of_nat k\<rparr>) [0..<nat n]
                     (replicate (nat n) (CacheSet_init setSize)))"
    using set_index_loop_numbers [of 0 "replicate (nat n) (CacheSet_init setSize)"] by simp
  then have li: "set_index_loop 0 (replicate (nat n) (CacheSet_init setSize)) = Some sets"
    unfolding map2_replicate by (simp add: sets_def CacheSet_init_def)
  have s2: "set_index_for_cache_sets (create_cache_sets t1 (ct_numberOfSets t1)) = Some t2"
    using li assms(1)
    by (simp add: set_index_for_cache_sets_def create_cache_sets_def t1_def t0_def
          read_cache_config_def sn t2_def)
  \<comment> \<open>the bit counts\<close>
  have "nat n * nat L < 2 ^ 31"
  proof -
    have "int (nat n * nat L) = n * L" using npos pos(2) by simp
    with nL Tlt have "int (nat n * nat L) < int (2 ^ 31)" by simp
    then show ?thesis by (simp only: of_nat_less_iff)
  qed
  then have bits: "ib + ob \<le> 30"
    unfolding ib_def ob_def L_def [symmetric]
    using npos pos(2) by (intro log2_int_product) simp_all
  then have ib30: "ib \<le> 30" and ob30: "ob \<le> 30" by simp_all
  define t3 where "t3 = t2\<lparr>ct_indexSize := word_of_nat ib\<rparr>"
  define t4 where "t4 = t3\<lparr>ct_offsetSize := word_of_nat ob\<rparr>"
  have s3: "calculate_index_size t2 = Some t3"
    using npos by (simp add: calculate_index_size_def t2_def t1_def sn t3_def ib_def)
  have s4: "calculate_offset_size t3 = Some t4"
    using pos(2)
    by (simp add: calculate_offset_size_def t3_def t2_def t1_def t0_def read_cache_config_def
          t4_def ob_def L_def)
  have si: "sint (ct_indexSize t4) = int ib" and so: "sint (ct_offsetSize t4) = int ob"
    by (simp_all add: t4_def t3_def sint_of_nat_cint [OF ib30] sint_of_nat_cint [OF ob30])
  \<comment> \<open>the masks\<close>
  define t5 where "t5 = t4\<lparr>ct_offsetMask := mask ob\<rparr>"
  define t6 where "t6 = t5\<lparr>ct_indexMask := mask (ib + ob) - mask ob\<rparr>"
  have s5: "calculate_offset_mask t4 = Some t5"
    using calculate_offset_mask_exact [of t4] ob30 by (simp add: so t5_def)
  have s6: "calculate_index_mask t5 = Some t6"
    using calculate_index_mask_exact [of t5] bits si so by (simp add: t5_def t6_def)
  have c: "configure t setSize lineSize totalCacheSize = Some t6"
    unfolding configure_def t0_def [symmetric] by (simp add: s1 s2 s3 s4 s5 s6)
  have f: "ct_cacheSet t6 = sets" "sint (ct_numberOfSets t6) = n"
    "sint (ct_indexSize t6) = int ib" "sint (ct_offsetSize t6) = int ob"
    "ct_offsetMask t6 = mask ob" "ct_indexMask t6 = mask (ib + ob) - mask ob"
    "ct_setSize t6 = setSize" "ct_lineSize t6 = lineSize"
    "ct_totalCacheSize t6 = totalCacheSize"
    "ct_memRef t6 = ct_memRef t" "ct_totalHits t6 = ct_totalHits t"
    "ct_totalMiss t6 = ct_totalMiss t" "ct_totalAccess t6 = ct_totalAccess t"
    using si so
    by (simp_all add: t6_def t5_def t4_def t3_def t2_def t1_def t0_def read_cache_config_def sn)
  from c f npos bits show ?thesis unfolding sets_def by blast
qed

lemma configure_trace_ready:
  assumes "ct_cacheSet t = []" and "0 < sint setSize" and "0 < sint lineSize"
    and "sint lineSize * sint setSize \<le> sint totalCacheSize"
  shows "\<exists>t'. configure t setSize lineSize totalCacheSize = Some t' \<and> trace_ready t'"
proof -
  define n where "n = (sint totalCacheSize div sint lineSize) div sint setSize"
  define ib where "ib = log2_int (nat n)"
  define ob where "ob = log2_int (nat (sint lineSize))"
  from configure_positive [OF assms] obtain t' where
    c: "configure t setSize lineSize totalCacheSize = Some t'"
    and sets: "ct_cacheSet t' = map (\<lambda>k. \<lparr>cs_setSize = setSize, cs_index = word_of_nat k,
                                    cs_cacheLine = []\<rparr>) [0..<nat n]"
    and si: "sint (ct_indexSize t') = int ib" and so: "sint (ct_offsetSize t') = int ob"
    and bits: "ib + ob \<le> 30"
    unfolding n_def ib_def ob_def by blast
  have uo: "unat (scast (ct_offsetSize t') :: ulong) = ob"
    using scast_nonneg [of "ct_offsetSize t'"] so by simp
  have ui: "unat (scast (ct_indexSize t') :: ulong) = ib"
    using scast_nonneg [of "ct_indexSize t'"] si by simp
  have "unat (scast (ct_indexSize t') + scast (ct_offsetSize t') :: ulong)
          = (ib + ob) mod 2 ^ LENGTH(64)"
    by (simp only: unat_word_ariths ui uo)
  also have "\<dots> = ib + ob" using bits by simp
  finally have sum: "unat (scast (ct_indexSize t') + scast (ct_offsetSize t') :: ulong) = ib + ob" .
  from assms(2) have "setSize \<noteq> 0" by auto
  then have "\<forall>s \<in> set (ct_cacheSet t'). can_insert s"
    unfolding sets by (auto simp: can_insert_def)
  with sum uo bits have "trace_ready t'" by (simp add: trace_ready_def)
  with c show ?thesis by blast
qed

lemma log2_int_values:
  "log2_int 2 = 1" "log2_int 3 = 1" "log2_int 4 = 2" "log2_int 8 = 3" "log2_int 16 = 4"
  "log2_int 32 = 5"
  by (simp_all add: log2_int.simps)

lemma cint_eqI: "sint (w :: cint) = sint v \<Longrightarrow> w = v"
  by (rule signed_word_eqI)

lemma configure_100_8_3: "configure CacheTable_zero 3 8 100 = Some table_100_8_3"
proof -
  have e: "ct_cacheSet CacheTable_zero = []" by (simp add: CacheTable_zero_def)
  have p: "0 < sint (3 :: cint)" "0 < sint (8 :: cint)"
    "sint (8 :: cint) * sint (3 :: cint) \<le> sint (100 :: cint)" by simp_all
  from configure_positive [OF e p] obtain t' where
    c: "configure CacheTable_zero 3 8 100 = Some t'"
    and f: "ct_cacheSet t' = map (\<lambda>k. \<lparr>cs_setSize = 3, cs_index = word_of_nat k,
                                    cs_cacheLine = []\<rparr>) [0..<4]"
      "sint (ct_numberOfSets t') = 4" "sint (ct_indexSize t') = 2" "sint (ct_offsetSize t') = 3"
      "ct_offsetMask t' = mask 3" "ct_indexMask t' = mask 5 - mask 3"
      "ct_setSize t' = 3" "ct_lineSize t' = 8" "ct_totalCacheSize t' = 100"
      "ct_memRef t' = []" "ct_totalHits t' = 0" "ct_totalMiss t' = 0" "ct_totalAccess t' = 0"
    by (auto simp: log2_int_values CacheTable_zero_def)
  have w: "ct_numberOfSets t' = 4" "ct_indexSize t' = 2" "ct_offsetSize t' = 3"
    using f(2-4) by (auto intro: cint_eqI)
  have "t' = table_100_8_3"
    by (rule CacheTable.equality)
       (simp_all add: table_100_8_3_def f w upt_rec mask_eq_exp_minus_1)
  with c show ?thesis by simp
qed

lemma configure_example: "configure CacheTable_zero 2 16 64 = Some example_table"
proof -
  have e: "ct_cacheSet CacheTable_zero = []" by (simp add: CacheTable_zero_def)
  have p: "0 < sint (2 :: cint)" "0 < sint (16 :: cint)"
    "sint (16 :: cint) * sint (2 :: cint) \<le> sint (64 :: cint)" by simp_all
  from configure_positive [OF e p] obtain t' where
    c: "configure CacheTable_zero 2 16 64 = Some t'"
    and f: "ct_cacheSet t' = map (\<lambda>k. \<lparr>cs_setSize = 2, cs_index = word_of_nat k,
                                    cs_cacheLine = []\<rparr>) [0..<2]"
      "sint (ct_numberOfSets t') = 2" "sint (ct_indexSize t') = 1" "sint (ct_offsetSize t') = 4"
      "ct_offsetMask t' = mask 4" "ct_indexMask t' = mask 5 - mask 4"
      "ct_setSize t' = 2" "ct_lineSize t' = 16" "ct_totalCacheSize t' = 64"
      "ct_memRef t' = []" "ct_totalHits t' = 0" "ct_totalMiss t' = 0" "ct_totalAccess t' = 0"
    by (auto simp: log2_int_values CacheTable_zero_def)
  have w: "ct_numberOfSets t' = 2" "ct_indexSize t' = 1" "ct_offsetSize t' = 4"
    using f(2-4) by (auto intro: cint_eqI)
  have "t' = example_table"
    by (rule CacheTable.equality)
       (simp_all add: example_table_def f w upt_rec mask_eq_exp_minus_1)
  with c show ?thesis by simp
qed

text \<open>
  The configuration (100, 8, 3) is not rejected: \<open>configure\<close> returns a table with 4 sets,
  3 offset bits and 2 index bits.
\<close>

theorem geometry_counterexample:
  "configure CacheTable_zero 3 8 100 = Some table_100_8_3
   \<and> ct_numberOfSets table_100_8_3 = 4 \<and> length (ct_cacheSet table_100_8_3) = 4
   \<and> ct_offsetSize table_100_8_3 = 3 \<and> ct_indexSize table_100_8_3 = 2"
  using configure_100_8_3 by (simp add: table_100_8_3_def)

text \<open>
  C4, as the code has it. The derivation validates nothing and has no error to raise.
  When \<open>lineSize_\<close> or \<open>setSize_\<close> is 0, \<open>calculate_number_of_sets\<close> returns without
  assigning \<open>numberOfSets_\<close>. For every configuration of positive sizes with room for at
  least one set, \<open>configure\<close> succeeds, whether or not the number of sets is a power of
  two: \<open>numberOfSets = (totalCacheSize / lineSize) / setSize\<close>, that many sets are
  created, and the bit counts are the truncated binary logarithms of \<open>lineSize\<close> and
  \<open>numberOfSets\<close>. It yields 8 sets, 5 offset bits and 3 index bits for (1024, 32, 4),
  and 4 sets, 3 offset bits and 2 index bits for (100, 8, 3).
\<close>

theorem geometry_without_validation:
  "(ct_lineSize t = 0 \<or> ct_setSize t = 0 \<longrightarrow> calculate_number_of_sets t = Some t)
   \<and> (ct_cacheSet t = [] \<and> 0 < sint setSize \<and> 0 < sint lineSize
        \<and> sint lineSize * sint setSize \<le> sint totalCacheSize \<longrightarrow>
       (\<exists>t'. configure t setSize lineSize totalCacheSize = Some t'
          \<and> sint (ct_numberOfSets t')
               = (sint totalCacheSize div sint lineSize) div sint setSize
          \<and> length (ct_cacheSet t') = nat (sint (ct_numberOfSets t'))
          \<and> sint (ct_offsetSize t') = int (log2_int (nat (sint lineSize)))
          \<and> sint (ct_indexSize t') = int (log2_int (nat (sint (ct_numberOfSets t'))))))
   \<and> (\<exists>t'. configure CacheTable_zero 4 32 1024 = Some t'
          \<and> sint (ct_numberOfSets t') = 8 \<and> length (ct_cacheSet t') = 8
          \<and> sint (ct_offsetSize t') = 5 \<and> sint (ct_indexSize t') = 3)
   \<and> (\<exists>t'. configure CacheTable_zero 3 8 100 = Some t'
          \<and> sint (ct_numberOfSets t') = 4 \<and> length (ct_cacheSet t') = 4
          \<and> sint (ct_offsetSize t') = 3 \<and> sint (ct_indexSize t') = 2)"
proof -
  have zero: "ct_lineSize t = 0 \<or> ct_setSize t = 0 \<longrightarrow> calculate_number_of_sets t = Some t"
    by (auto simp: calculate_number_of_sets_def)
  have gen: "\<exists>t'. configure t setSize lineSize totalCacheSize = Some t'
          \<and> sint (ct_numberOfSets t')
               = (sint totalCacheSize div sint lineSize) div sint setSize
          \<and> length (ct_cacheSet t') = nat (sint (ct_numberOfSets t'))
          \<and> sint (ct_offsetSize t') = int (log2_int (nat (sint lineSize)))
          \<and> sint (ct_indexSize t') = int (log2_int (nat (sint (ct_numberOfSets t'))))"
    if "ct_cacheSet t = []" "0 < sint setSize" "0 < sint lineSize"
      "sint lineSize * sint setSize \<le> sint totalCacheSize"
    for t setSize lineSize totalCacheSize
    using configure_positive [OF that] by auto
  have e: "ct_cacheSet CacheTable_zero = []" by (simp add: CacheTable_zero_def)
  have a: "\<exists>t'. configure CacheTable_zero 4 32 1024 = Some t'
          \<and> sint (ct_numberOfSets t') = 8 \<and> length (ct_cacheSet t') = 8
          \<and> sint (ct_offsetSize t') = 5 \<and> sint (ct_indexSize t') = 3"
    using gen [OF e, of 4 32 1024] by (auto simp: log2_int_values)
  have b: "\<exists>t'. configure CacheTable_zero 3 8 100 = Some t'
          \<and> sint (ct_numberOfSets t') = 4 \<and> length (ct_cacheSet t') = 4
          \<and> sint (ct_offsetSize t') = 3 \<and> sint (ct_indexSize t') = 2"
    using gen [OF e, of 3 8 100] by (auto simp: log2_int_values)
  from zero gen [of t setSize lineSize totalCacheSize] a b show ?thesis by blast
qed

theorem geometry_without_validation_witness:
  "(\<exists>t'. configure CacheTable_zero 4 8 96 = Some t'
          \<and> sint (ct_numberOfSets t') = 3 \<and> length (ct_cacheSet t') = 3
          \<and> sint (ct_offsetSize t') = 3 \<and> sint (ct_indexSize t') = 1)
   \<and> calculate_number_of_sets (read_cache_config CacheTable_zero 4 0 96)
        = Some (read_cache_config CacheTable_zero 4 0 96)"
proof -
  note g = geometry_without_validation
    [of "read_cache_config CacheTable_zero 4 0 96" 4 8 96]
  have z: "ct_lineSize (read_cache_config CacheTable_zero 4 0 96) = 0"
    by (simp add: read_cache_config_def)
  from g z have 1: "calculate_number_of_sets (read_cache_config CacheTable_zero 4 0 96)
        = Some (read_cache_config CacheTable_zero 4 0 96)"
    by blast
  note h = geometry_without_validation [of CacheTable_zero 4 8 96]
  have e: "ct_cacheSet CacheTable_zero = []" by (simp add: CacheTable_zero_def)
  have p: "0 < sint (4 :: cint)" "0 < sint (8 :: cint)"
    "sint (8 :: cint) * sint (4 :: cint) \<le> sint (96 :: cint)" by simp_all
  from h e p have "\<exists>t'. configure CacheTable_zero 4 8 96 = Some t'
          \<and> sint (ct_numberOfSets t')
               = (sint (96 :: cint) div sint (8 :: cint)) div sint (4 :: cint)
          \<and> length (ct_cacheSet t') = nat (sint (ct_numberOfSets t'))
          \<and> sint (ct_offsetSize t') = int (log2_int (nat (sint (8 :: cint))))
          \<and> sint (ct_indexSize t') = int (log2_int (nat (sint (ct_numberOfSets t'))))"
    by blast
  then have 2: "\<exists>t'. configure CacheTable_zero 4 8 96 = Some t'
          \<and> sint (ct_numberOfSets t') = 3 \<and> length (ct_cacheSet t') = 3
          \<and> sint (ct_offsetSize t') = 3 \<and> sint (ct_indexSize t') = 1"
    by (auto simp: log2_int_values)
  from 2 1 show ?thesis by (rule conjI)
qed

subsection \<open>Every decomposed index selects a set\<close>

text \<open>
  On a table built by \<open>configure\<close> from positive sizes, the index that \<open>read_mem_trace\<close>
  passes to \<open>determine_hit_or_miss\<close> selects a set for every address: it is below
  \<open>2^indexSize_\<close>, which is at most the number of sets. Accesses keep the numbers of the
  sets, so this holds throughout a run.
\<close>

lemma lookup_set_cong:
  "map cs_index ss = map cs_index ss' \<Longrightarrow> lookup_set index ss = lookup_set index ss'"
proof (induction ss arbitrary: ss')
  case Nil
  then show ?case by simp
next
  case (Cons s ss)
  then obtain s' ss'' where "ss' = s' # ss''" by (cases ss') auto
  with Cons show ?case by auto
qed

lemma determine_hit_or_miss_lookup:
  assumes "determine_hit_or_miss t i tag = Some (hM, t')"
  shows "lookup_set index (ct_cacheSet t') = lookup_set index (ct_cacheSet t)"
proof -
  note d = determine_hit_or_miss_sets [OF assms]
  have "map cs_index (ct_cacheSet t') = map cs_index (ct_cacheSet t)"
    using d by (simp add: list_eq_iff_nth_eq)
  then show ?thesis by (rule lookup_set_cong)
qed

lemma small_index_roundtrip:
  fixes x :: ulong
  assumes "uint x < 2 ^ 31"
  shows "(scast (ucast x :: cint) :: ulong) = x"
proof -
  have "- (2 ^ 31) \<le> uint x" by (rule order_trans [OF _ uint_ge_0]) simp
  then have "sint (word_of_int (uint x) :: cint) = uint x"
    using assms by (rule sint_of_int_cint)
  then have "sint (ucast x :: cint) = uint x" by (simp only: ucast_eq)
  then have "(scast (ucast x :: cint) :: ulong) = word_of_int (uint x)"
    by (simp only: scast_eq)
  then show ?thesis by simp
qed

lemma field_uint_bound:
  fixes w :: ulong
  shows "uint (w AND mask n) < 2 ^ n"
proof -
  have "w AND mask n = take_bit n w" by (rule take_bit_eq_mask [symmetric])
  then have "uint (w AND mask n) = take_bit n (uint w)"
    by (simp only: unsigned_take_bit_eq)
  then show ?thesis by (simp only: take_bit_int_less_exp)
qed

lemma lookup_set_numbered:
  assumes "unat x < n" and "n < 2 ^ 31"
  shows "lookup_set x (map (\<lambda>j. \<lparr>cs_setSize = S, cs_index = word_of_nat j,
                                   cs_cacheLine = []\<rparr>) [0..<n]) = Some (unat x)"
proof -
  have u: "unat (ucast (word_of_nat j :: uint) :: ulong) = j" if "j < n" for j
  proof -
    from that assms(2) have "j < 2 ^ 31" by simp
    then show ?thesis
      by (simp add: unsigned_ucast_eq unsigned_of_nat take_bit_nat_eq_self)
  qed
  have e: "x = ucast (word_of_nat (unat x) :: uint)"
    by (rule word_unat_eq_iff [THEN iffD2]) (simp only: u [OF assms(1)])
  have ne: "x \<noteq> ucast (word_of_nat j :: uint)" if "j < unat x" for j
  proof
    assume "x = ucast (word_of_nat j :: uint)"
    then have "unat x = unat (ucast (word_of_nat j :: uint) :: ulong)" by simp
    with u [of j] that assms(1) show False by simp
  qed
  from assms(1) e ne show ?thesis
    by (simp add: lookup_set_Some_iff)
qed

lemma configured_index_in_range:
  assumes "ct_cacheSet t = []" and "0 < sint setSize" and "0 < sint lineSize"
    and "sint lineSize * sint setSize \<le> sint totalCacheSize"
    and "configure t setSize lineSize totalCacheSize = Some t'"
  shows "\<exists>k<length (ct_cacheSet t').
           lookup_set (scast (ucast (drop_bit (unat (scast (ct_offsetSize t') :: ulong))
                               (address AND ct_indexMask t')) :: cint))
             (ct_cacheSet t') = Some k"
proof -
  define n where "n = (sint totalCacheSize div sint lineSize) div sint setSize"
  define ib where "ib = log2_int (nat n)"
  define ob where "ob = log2_int (nat (sint lineSize))"
  from configure_positive [OF assms(1-4)] assms(5) have
    sets: "ct_cacheSet t' = map (\<lambda>k. \<lparr>cs_setSize = setSize, cs_index = word_of_nat k,
                                    cs_cacheLine = []\<rparr>) [0..<nat n]"
    and sn: "sint (ct_numberOfSets t') = n" and npos: "0 < n"
    and so: "sint (ct_offsetSize t') = int ob"
    and bits: "ib + ob \<le> 30"
    and im: "ct_indexMask t' = mask (ib + ob) - mask ob"
    unfolding n_def ib_def ob_def by auto
  have uo: "unat (scast (ct_offsetSize t') :: ulong) = ob"
    using scast_nonneg [of "ct_offsetSize t'"] so by simp
  define x where "x = drop_bit ob (address AND (mask (ib + ob) - mask ob))"
  have xm: "x = drop_bit ob address AND mask ib"
    unfolding x_def index_mask_bits index_field ..
  have xlt: "uint x < 2 ^ ib" unfolding xm by (rule field_uint_bound)
  have "(2 :: int) ^ ib \<le> 2 ^ 30" using bits by (intro power_increasing) simp_all
  with xlt have x31: "uint x < 2 ^ 31" by simp
  have "int (unat x) < int (2 ^ ib)" using xlt by simp
  then have "unat x < 2 ^ ib" by (simp only: of_nat_less_iff)
  also have "2 ^ ib \<le> nat n"
    unfolding ib_def using log2_int_bounds [of "nat n"] npos by simp
  finally have xn: "unat x < nat n" .
  have "sint (ct_numberOfSets t') < 2 ^ 31" using sint_lt [of "ct_numberOfSets t'"] by simp
  then have n31: "nat n < 2 ^ 31" unfolding sn using npos by simp
  from lookup_set_numbered [OF xn n31, of setSize]
  have "lookup_set (scast (ucast x :: cint)) (ct_cacheSet t') = Some (unat x)"
    unfolding small_index_roundtrip [OF x31] sets .
  with xn show ?thesis
    unfolding uo im x_def [symmetric] sets by auto
qed

section \<open>The counters of a table on storage that is not zero\<close>

text \<open>
  \<open>main\<close> creates the table with \<open>new CacheTable\<close>; the constructor \<open>CacheTable()\<close> has an
  empty body and no member initialisers, and no function assigns \<open>totalHits\<close>, \<open>totalMiss\<close>
  or \<open>totalAccess\<close> before \<open>read_mem_trace\<close> increments them. The configuration keeps
  whatever the storage held there.
\<close>

lemma configure_nonzero_storage:
  "configure (CacheTable_zero\<lparr>ct_totalHits := 5\<rparr>) 2 16 64
     = Some (example_table\<lparr>ct_totalHits := 5\<rparr>)"
proof -
  have e: "ct_cacheSet (CacheTable_zero\<lparr>ct_totalHits := 5\<rparr>) = []"
    by (simp add: CacheTable_zero_def)
  have p: "0 < sint (2 :: cint)" "0 < sint (16 :: cint)"
    "sint (16 :: cint) * sint (2 :: cint) \<le> sint (64 :: cint)" by simp_all
  from configure_positive [OF e p] obtain t' where
    c: "configure (CacheTable_zero\<lparr>ct_totalHits := 5\<rparr>) 2 16 64 = Some t'"
    and f: "ct_cacheSet t' = map (\<lambda>k. \<lparr>cs_setSize = 2, cs_index = word_of_nat k,
                                    cs_cacheLine = []\<rparr>) [0..<2]"
      "sint (ct_numberOfSets t') = 2" "sint (ct_indexSize t') = 1" "sint (ct_offsetSize t') = 4"
      "ct_offsetMask t' = mask 4" "ct_indexMask t' = mask 5 - mask 4"
      "ct_setSize t' = 2" "ct_lineSize t' = 16" "ct_totalCacheSize t' = 64"
      "ct_memRef t' = []" "ct_totalHits t' = 5" "ct_totalMiss t' = 0" "ct_totalAccess t' = 0"
    by (auto simp: log2_int_values CacheTable_zero_def)
  have w: "ct_numberOfSets t' = 2" "ct_indexSize t' = 1" "ct_offsetSize t' = 4"
    using f(2-4) by (auto intro: cint_eqI)
  have "t' = example_table\<lparr>ct_totalHits := 5\<rparr>"
    by (rule CacheTable.equality)
       (simp_all add: example_table_def f w upt_rec mask_eq_exp_minus_1)
  with c show ?thesis by simp
qed

lemma trace_nonzero_storage:
  "read_mem_trace (example_table\<lparr>ct_totalHits := 5\<rparr>) example_trace
     = Some (example_table_traced\<lparr>ct_totalHits := 6\<rparr>)"
  by (simp add: example_table_def example_trace_def example_table_traced_def trace_simps
        access_simps)

text \<open>
  C6. After a run \<open>totalHits + totalMiss\<close> should equal \<open>totalAccess\<close>. On storage where
  \<open>totalHits\<close> holds 5 and every other member holds 0, the configuration (2, 16, 64) gives
  the example table with \<open>totalHits = 5\<close>, and the run over the example trace, two misses
  and one hit, ends with \<open>totalHits = 6\<close>, \<open>totalMiss = 2\<close> and \<open>totalAccess = 3\<close>: the sum
  is 8, not 3. Each reference is counted as it should be (lemma \<open>totals_accounting\<close>);
  what is missing is the assignment of 0 to the three counters.
\<close>

theorem totals_uninitialised:
  "configure (CacheTable_zero\<lparr>ct_totalHits := 5\<rparr>) 2 16 64
     = Some (example_table\<lparr>ct_totalHits := 5\<rparr>)
   \<and> read_mem_trace (example_table\<lparr>ct_totalHits := 5\<rparr>) example_trace
     = Some (example_table_traced\<lparr>ct_totalHits := 6\<rparr>)
   \<and> ct_totalHits (example_table_traced\<lparr>ct_totalHits := 6\<rparr>) = 6
   \<and> ct_totalMiss (example_table_traced\<lparr>ct_totalHits := 6\<rparr>) = 2
   \<and> ct_totalAccess (example_table_traced\<lparr>ct_totalHits := 6\<rparr>) = 3
   \<and> ct_totalHits (example_table_traced\<lparr>ct_totalHits := 6\<rparr>)
       + ct_totalMiss (example_table_traced\<lparr>ct_totalHits := 6\<rparr>)
     \<noteq> ct_totalAccess (example_table_traced\<lparr>ct_totalHits := 6\<rparr>)"
  using configure_nonzero_storage trace_nonzero_storage
  by (simp add: example_table_traced_def)

end
